theory Spec2Isabelle
  imports Complex_Main "HOL-Library.Word" "HOL-Library.Monad_Syntax"
begin

unbundle bit_operations_syntax

section \<open>Data model\<close>

text \<open>
  The light-source localisation of \<^verbatim>\<open>ESP32-CAM-EYES.ino\<close>: \<^verbatim>\<open>dsu_init\<close>, \<^verbatim>\<open>dsu_find\<close>,
  \<^verbatim>\<open>dsu_unite\<close> and \<^verbatim>\<open>find_light_source\<close>.

  Conventions of the embedding.
  \<^item> A C array is a list. Every read and write goes through \<open>array_get\<close> / \<open>array_set\<close>,
    which return \<open>None\<close> for an index outside the array. A computation that is \<open>None\<close>
    did not return normally: it left the bounds of an array, divided by zero, or (for the
    recursive \<^verbatim>\<open>dsu_find\<close>) never returned.
  \<^item> \<^verbatim>\<open>uint16_t\<close>, \<^verbatim>\<open>uint8_t\<close> and \<^verbatim>\<open>uint32_t\<close> are words of that width. The pixel buffer is seen
    through \<^verbatim>\<open>uint16_t* pixels\<close>; the ESP32 is little-endian, so the byte at the lower address
    (\<^verbatim>\<open>low_byte\<close>) is the least significant byte of \<^verbatim>\<open>pixels[i]\<close>.
  \<^item> Labels, loop counters and \<^verbatim>\<open>parent[]\<close> entries are \<^verbatim>\<open>int\<close> in the source but never
    negative (they start at 0 or 1 and only count up, or come from a \<^verbatim>\<open>uint16_t\<close>); they are
    \<open>nat\<close> here. \<^verbatim>\<open>pixel_count\<close> is an unbounded \<open>int\<close>. Both are exact as long as
    \<^verbatim>\<open>width * height\<close> fits a 32-bit \<^verbatim>\<open>int\<close>, which \<open>frame_ok\<close> demands.
  \<^item> \<^verbatim>\<open>float\<close> is idealised as \<open>real\<close>: rounding, infinities and NaN are not modelled.
    (\<^verbatim>\<open>sqrtf\<close> of a negative number is NaN, which fails \<^verbatim>\<open>>= 0.5f\<close>; \<open>sqrt\<close> of a negative
    real is negative and fails it as well.)
\<close>

datatype pixformat =
    PIXFORMAT_RGB565 | PIXFORMAT_YUV422 | PIXFORMAT_YUV420 | PIXFORMAT_GRAYSCALE
  | PIXFORMAT_JPEG | PIXFORMAT_RGB888 | PIXFORMAT_RAW | PIXFORMAT_RGB444 | PIXFORMAT_RGB555

text \<open>\<^verbatim>\<open>camera_fb_t\<close> (declared by the camera driver): the fields the pipeline reads.\<close>

record camera_fb =
  fb_buf :: "16 word list"
  fb_width :: nat
  fb_height :: nat
  fb_format :: pixformat

text \<open>\<^verbatim>\<open>light_source_result_t\<close>; the fields \<^verbatim>\<open>x\<close>, \<^verbatim>\<open>y\<close>, \<^verbatim>\<open>pixel_count\<close>.\<close>

record light_source_result =
  lsr_x :: real
  lsr_y :: real
  lsr_pixel_count :: int

text \<open>\<^verbatim>\<open>blob_info_t\<close>; the field \<^verbatim>\<open>id\<close> is \<open>blob_id\<close>.\<close>

record blob_info =
  blob_id :: nat
  pixel_count :: int
  sum_x :: "32 word"
  sum_y :: "32 word"
  sum_x2 :: "32 word"
  sum_y2 :: "32 word"
  sum_xy :: "32 word"

definition MAX_LABELS :: nat where
  "MAX_LABELS = 256"

definition min_blob_size :: int where
  "min_blob_size = 3"

definition min_circularity :: real where
  "min_circularity = 0.5"

section \<open>Arrays and loops\<close>

definition array_get :: "'a list \<Rightarrow> nat \<Rightarrow> 'a option" where
  "array_get a i = (if i < length a then Some (a ! i) else None)"

definition array_set :: "'a list \<Rightarrow> nat \<Rightarrow> 'a \<Rightarrow> 'a list option" where
  "array_set a i v = (if i < length a then Some (a[i := v]) else None)"

text \<open>A \<^verbatim>\<open>for\<close> loop over the values \<open>ks\<close> of its counter, threading the state.\<close>

fun for_each :: "'a list \<Rightarrow> ('a \<Rightarrow> 's \<Rightarrow> 's option) \<Rightarrow> 's \<Rightarrow> 's option" where
  "for_each [] body s = Some s"
| "for_each (k # ks) body s = (case body k s of None \<Rightarrow> None | Some s' \<Rightarrow> for_each ks body s')"

section \<open>Disjoint set union\<close>

text \<open>\<^verbatim>\<open>for (int i = 0; i < MAX_LABELS; i++) parent[i] = i;\<close>\<close>

definition dsu_init :: "nat list \<Rightarrow> nat list option" where
  "dsu_init parent = for_each [0..<MAX_LABELS] (\<lambda>i p. array_set p i i) parent"

text \<open>
  \<^verbatim>\<open>if (parent[i] == i) return i; return parent[i] = dsu_find(parent[i]);\<close>
  The global array is threaded through; the result is the array after path compression and
  the root.
\<close>

partial_function (option) dsu_find :: "nat list \<Rightarrow> nat \<Rightarrow> (nat list \<times> nat) option" where
  "dsu_find parent i =
     (if i < length parent then
        (if parent ! i = i then Some (parent, i)
         else do {
           (parent', root) \<leftarrow> dsu_find parent (parent ! i);
           if i < length parent' then Some (parent'[i := root], root) else None
         })
      else None)"

declare dsu_find.simps [code]

definition dsu_unite :: "nat list \<Rightarrow> nat \<Rightarrow> nat \<Rightarrow> nat list option" where
  "dsu_unite parent i j = do {
     (parent1, root_i) \<leftarrow> dsu_find parent i;
     (parent2, root_j) \<leftarrow> dsu_find parent1 j;
     if root_i \<noteq> root_j then
       (if root_i < root_j then array_set parent2 root_j root_i
        else array_set parent2 root_i root_j)
     else Some parent2
   }"

section \<open>The pipeline of \<^verbatim>\<open>find_light_source\<close>\<close>

subsection \<open>1. Binarization\<close>

definition binarize_px :: "16 word \<Rightarrow> 16 word" where
  "binarize_px p =
     (let low_byte = (ucast p :: 8 word);
          high_byte = (ucast (drop_bit 8 p) :: 8 word);
          r = low_byte AND 0xF8;
          g = push_bit 5 (low_byte AND 0x07) OR drop_bit 3 (high_byte AND 0xE0);
          b = push_bit 3 (high_byte AND 0x1F)
      in if r > 230 \<and> g > 230 \<and> b > 230 then 0xFFFF else 0)"

definition binarize :: "nat \<Rightarrow> nat \<Rightarrow> 16 word list \<Rightarrow> 16 word list option" where
  "binarize w h pixels =
     for_each [0..<w * h]
       (\<lambda>i px. do { p \<leftarrow> array_get px i; array_set px i (binarize_px p) }) pixels"

subsection \<open>2. First pass: labeling and recording equivalences\<close>

text \<open>The state of the first pass: \<^verbatim>\<open>pixels\<close>, \<^verbatim>\<open>parent\<close>, \<^verbatim>\<open>next_label\<close>.\<close>

type_synonym label_state = "16 word list \<times> nat list \<times> nat"

definition label_px :: "nat \<Rightarrow> nat \<Rightarrow> nat \<Rightarrow> label_state \<Rightarrow> label_state option" where
  "label_px w y x s =
     (case s of (pixels, parent, next_label) \<Rightarrow>
        let i = y * w + x in
        do {
          p \<leftarrow> array_get pixels i;
          if p = 0xFFFF then do {
            top_label \<leftarrow> (if y > 0 then array_get pixels (i - w) else Some 0);
            left_label \<leftarrow> (if x > 0 then array_get pixels (i - 1) else Some 0);
            if top_label = 0 \<and> left_label = 0 then
              (if next_label < MAX_LABELS then do {
                 pixels' \<leftarrow> array_set pixels i (word_of_nat next_label);
                 Some (pixels', parent, next_label + 1)
               } else do {
                 pixels' \<leftarrow> array_set pixels i 0;
                 Some (pixels', parent, next_label)
               })
            else if top_label > 0 \<and> left_label = 0 then do {
              pixels' \<leftarrow> array_set pixels i top_label;
              Some (pixels', parent, next_label)
            }
            else if top_label = 0 \<and> left_label > 0 then do {
              pixels' \<leftarrow> array_set pixels i left_label;
              Some (pixels', parent, next_label)
            }
            else do {
              parent' \<leftarrow> (if top_label \<noteq> left_label
                          then dsu_unite parent (unat top_label) (unat left_label)
                          else Some parent);
              pixels' \<leftarrow> array_set pixels i (if top_label < left_label then top_label else left_label);
              Some (pixels', parent', next_label)
            }
          }
          else Some s
        })"

definition first_pass :: "nat \<Rightarrow> nat \<Rightarrow> label_state \<Rightarrow> label_state option" where
  "first_pass w h s = for_each [0..<h] (\<lambda>y. for_each [0..<w] (\<lambda>x. label_px w y x)) s"

subsection \<open>3. Second pass: resolve labels and calculate blob stats\<close>

definition blob_zero :: blob_info where
  "blob_zero = \<lparr>blob_id = 0, pixel_count = 0, sum_x = 0, sum_y = 0,
                 sum_x2 = 0, sum_y2 = 0, sum_xy = 0\<rparr>"

text \<open>The statements under \<^verbatim>\<open>// Aggregate statistics for this blob.\<close>\<close>

definition blob_add :: "nat \<Rightarrow> nat \<Rightarrow> nat \<Rightarrow> blob_info \<Rightarrow> blob_info" where
  "blob_add final_label x y b =
     b\<lparr>blob_id := (if blob_id b = 0 then final_label else blob_id b),
       pixel_count := pixel_count b + 1,
       sum_x := sum_x b + word_of_nat x,
       sum_y := sum_y b + word_of_nat y,
       sum_x2 := sum_x2 b + word_of_nat x * word_of_nat x,
       sum_y2 := sum_y2 b + word_of_nat y * word_of_nat y,
       sum_xy := sum_xy b + word_of_nat x * word_of_nat y\<rparr>"

text \<open>The state of the second pass: \<^verbatim>\<open>pixels\<close>, \<^verbatim>\<open>parent\<close>, \<^verbatim>\<open>blobs\<close>.\<close>

type_synonym stats_state = "16 word list \<times> nat list \<times> blob_info list"

definition measure_px :: "nat \<Rightarrow> nat \<Rightarrow> nat \<Rightarrow> stats_state \<Rightarrow> stats_state option" where
  "measure_px w y x s =
     (case s of (pixels, parent, blobs) \<Rightarrow>
        let i = y * w + x in
        do {
          p \<leftarrow> array_get pixels i;
          if p > 0 then do {
            (parent', final_label) \<leftarrow> dsu_find parent (unat p);
            pixels' \<leftarrow> array_set pixels i (word_of_nat final_label);
            b \<leftarrow> array_get blobs final_label;
            blobs' \<leftarrow> array_set blobs final_label (blob_add final_label x y b);
            Some (pixels', parent', blobs')
          }
          else Some s
        })"

definition second_pass :: "nat \<Rightarrow> nat \<Rightarrow> stats_state \<Rightarrow> stats_state option" where
  "second_pass w h s = for_each [0..<h] (\<lambda>y. for_each [0..<w] (\<lambda>x. measure_px w y x)) s"

subsection \<open>4. Find the best blob\<close>

definition circularity :: "blob_info \<Rightarrow> real" where
  "circularity b =
     (let N = real_of_int (pixel_count b);
          cx = real (unat (sum_x b)) / N;
          cy = real (unat (sum_y b)) / N;
          mu_xx = real (unat (sum_x2 b)) - cx * real (unat (sum_x b));
          mu_yy = real (unat (sum_y2 b)) - cy * real (unat (sum_y b));
          mu_xy = real (unat (sum_xy b)) - cx * real (unat (sum_y b));
          A = mu_xx + mu_yy;
          B = sqrt ((mu_xx - mu_yy) ^ 2 + 4 * mu_xy * mu_xy);
          lambda_max = (A + B) / 2;
          lambda_min = (A - B) / 2
      in if lambda_max > 0 then sqrt (lambda_min / lambda_max) else 0)"

text \<open>The state of the selection loop: \<^verbatim>\<open>best_blob_index\<close>, \<^verbatim>\<open>max_pixel_count\<close>.\<close>

definition select_px :: "blob_info list \<Rightarrow> nat \<Rightarrow> int \<times> int \<Rightarrow> (int \<times> int) option" where
  "select_px blobs i s =
     (case s of (best_blob_index, max_pixel_count) \<Rightarrow>
        do {
          b \<leftarrow> array_get blobs i;
          if blob_id b \<noteq> 0 \<and> pixel_count b \<ge> min_blob_size then
            (if circularity b \<ge> min_circularity then
               (if pixel_count b > max_pixel_count then Some (int i, pixel_count b) else Some s)
             else Some s)
          else Some s
        })"

definition select_best :: "blob_info list \<Rightarrow> nat \<Rightarrow> (int \<times> int) option" where
  "select_best blobs next_label = for_each [1..<next_label] (select_px blobs) (-1, 0)"

subsection \<open>5. Centroid and result\<close>

text \<open>
  \<^verbatim>\<open>int res_x = best_blob->sum_x / best_blob->pixel_count;\<close> divides a \<^verbatim>\<open>uint32_t\<close> by an
  \<^verbatim>\<open>int\<close>: the divisor is converted to \<^verbatim>\<open>uint32_t\<close>, the quotient back to \<^verbatim>\<open>int\<close>.
\<close>

definition centroid :: "32 word \<Rightarrow> int \<Rightarrow> int option" where
  "centroid s n =
     (if (word_of_int n :: 32 word) = 0 then None
      else Some (sint (s div (word_of_int n :: 32 word))))"

definition normalize_coord :: "int \<Rightarrow> nat \<Rightarrow> real" where
  "normalize_coord c extent = (real_of_int c / real extent) * 2 - 1"

text \<open>
  Sections 1 and 2 of \<^verbatim>\<open>find_light_source\<close>: binarization, \<^verbatim>\<open>dsu_init()\<close> and the first pass
  from \<^verbatim>\<open>next_label = 1\<close>. The value is \<^verbatim>\<open>pixels\<close>, \<^verbatim>\<open>parent\<close> and \<^verbatim>\<open>next_label\<close> as the
  second pass finds them.
\<close>

definition label_frame :: "camera_fb \<Rightarrow> nat list \<Rightarrow> label_state option" where
  "label_frame fb parent = do {
     pixels1 \<leftarrow> binarize (fb_width fb) (fb_height fb) (fb_buf fb);
     parent1 \<leftarrow> dsu_init parent;
     first_pass (fb_width fb) (fb_height fb) (pixels1, parent1, 1)
   }"

text \<open>
  Sections 1 to 3: \<open>label_frame\<close>, then the second pass from \<^verbatim>\<open>blobs[MAX_LABELS] = {0}\<close>.
  The value is \<^verbatim>\<open>pixels\<close>, \<^verbatim>\<open>parent\<close>, \<^verbatim>\<open>next_label\<close> and \<^verbatim>\<open>blobs\<close> as section 4 finds them.
\<close>

definition scan_frame ::
  "camera_fb \<Rightarrow> nat list \<Rightarrow> (16 word list \<times> nat list \<times> nat \<times> blob_info list) option" where
  "scan_frame fb parent = do {
     (pixels2, parent2, next_label) \<leftarrow> label_frame fb parent;
     (pixels3, parent3, blobs) \<leftarrow>
        second_pass (fb_width fb) (fb_height fb)
          (pixels2, parent2, replicate MAX_LABELS blob_zero);
     Some (pixels3, parent3, next_label, blobs)
   }"

text \<open>
  \<^verbatim>\<open>find_light_source(fb, result)\<close>. The arguments are the frame, the caller's result struct
  and the global \<^verbatim>\<open>parent\<close> array as the call finds them; the value is the return code, the
  result struct, the pixel buffer and \<^verbatim>\<open>parent\<close> as the call leaves them.
\<close>

definition find_light_source ::
  "camera_fb \<Rightarrow> light_source_result \<Rightarrow> nat list
     \<Rightarrow> (int \<times> light_source_result \<times> 16 word list \<times> nat list) option" where
  "find_light_source fb result parent =
     (if fb_format fb \<noteq> PIXFORMAT_RGB565 then Some (-1, result, fb_buf fb, parent)
      else do {
        (pixels, parent', next_label, blobs) \<leftarrow> scan_frame fb parent;
        (best_blob_index, max_pixel_count) \<leftarrow> select_best blobs next_label;
        if best_blob_index = -1 then
          Some (-1, \<lparr>lsr_x = 0, lsr_y = 0, lsr_pixel_count = 0\<rparr>, pixels, parent')
        else do {
          best_blob \<leftarrow> array_get blobs (nat best_blob_index);
          res_x \<leftarrow> centroid (sum_x best_blob) (pixel_count best_blob);
          res_y \<leftarrow> centroid (sum_y best_blob) (pixel_count best_blob);
          Some (0, \<lparr>lsr_x = normalize_coord res_x (fb_width fb),
                    lsr_y = normalize_coord res_y (fb_height fb),
                    lsr_pixel_count = pixel_count best_blob\<rparr>, pixels, parent')
        }
      })"

text \<open>
  A frame as the capture driver delivers it: the buffer holds \<^verbatim>\<open>width * height\<close> pixels and
  that number fits an \<^verbatim>\<open>int\<close>.
\<close>

definition frame_ok :: "camera_fb \<Rightarrow> bool" where
  "frame_ok fb \<longleftrightarrow>
     length (fb_buf fb) = fb_width fb * fb_height fb \<and> fb_width fb * fb_height fb < 2 ^ 31"

section \<open>Specification-level notions\<close>

text \<open>
  RGB565 as the camera streams it: the byte at the lower address holds red and the upper
  three bits of green (\<^verbatim>\<open>RRRRRGGG\<close>), the next byte the rest of green and blue
  (\<^verbatim>\<open>GGGBBBBB\<close>). \<open>rgb565_value\<close> is the 16-bit colour \<^verbatim>\<open>RRRRRGGGGGGBBBBB\<close> of a pixel read
  through \<^verbatim>\<open>uint16_t*\<close>; \<open>red8\<close>, \<open>green8\<close>, \<open>blue8\<close> shift each bit-field of the colour
  up to the 8-bit range.
\<close>

definition rgb565_value :: "16 word \<Rightarrow> 16 word" where
  "rgb565_value p = push_bit 8 (take_bit 8 p) OR drop_bit 8 p"

definition red8 :: "16 word \<Rightarrow> 8 word" where
  "red8 v = push_bit 3 (ucast (drop_bit 11 v))"

definition green8 :: "16 word \<Rightarrow> 8 word" where
  "green8 v = push_bit 2 (ucast (take_bit 6 (drop_bit 5 v)))"

definition blue8 :: "16 word \<Rightarrow> 8 word" where
  "blue8 v = push_bit 3 (ucast (take_bit 5 v))"

definition is_bright :: "16 word \<Rightarrow> bool" where
  "is_bright v \<longleftrightarrow> red8 v > 230 \<and> green8 v > 230 \<and> blue8 v > 230"

text \<open>
  A blob the selection accepts: a canonical label that was observed, with at least
  \<^verbatim>\<open>min_blob_size\<close> pixels and a circularity of at least \<^verbatim>\<open>min_circularity\<close>.
\<close>

definition accepted :: "blob_info \<Rightarrow> bool" where
  "accepted b \<longleftrightarrow>
     blob_id b \<noteq> 0 \<and> pixel_count b \<ge> min_blob_size \<and> circularity b \<ge> min_circularity"

text \<open>A sequence of \<^verbatim>\<open>dsu_unite(i, j)\<close> calls.\<close>

definition dsu_unite_seq :: "(nat \<times> nat) list \<Rightarrow> nat list \<Rightarrow> nat list option" where
  "dsu_unite_seq us parent = for_each us (\<lambda>(i, j) p. dsu_unite p i j) parent"

text \<open>
  A sequence of \<^verbatim>\<open>dsu_find\<close> calls; the roots are collected in the order of the calls.
\<close>

fun dsu_find_seq :: "nat list \<Rightarrow> nat list \<Rightarrow> (nat list \<times> nat list) option" where
  "dsu_find_seq parent [] = Some (parent, [])"
| "dsu_find_seq parent (a # as) =
     (case dsu_find parent a of
        None \<Rightarrow> None
      | Some (parent', r) \<Rightarrow>
          (case dsu_find_seq parent' as of
             None \<Rightarrow> None
           | Some (parent'', rs) \<Rightarrow> Some (parent'', r # rs)))"

text \<open>The equivalence generated by a set of pairs, and the class of a label.\<close>

definition equiv_closure :: "(nat \<times> nat) set \<Rightarrow> (nat \<times> nat) set" where
  "equiv_closure S = (S \<union> S\<inverse>)\<^sup>*"

definition label_class :: "(nat \<times> nat) list \<Rightarrow> nat \<Rightarrow> nat set" where
  "label_class us a = {b. (a, b) \<in> equiv_closure (set us)}"

text \<open>
  The invariant of \<^verbatim>\<open>parent\<close>: no entry points upwards. \<open>root_of\<close> follows the parent
  entries down to the representative.
\<close>

definition forest :: "nat list \<Rightarrow> bool" where
  "forest p \<longleftrightarrow> (\<forall>i<length p. p ! i \<le> i)"

function root_of :: "nat list \<Rightarrow> nat \<Rightarrow> nat" where
  "root_of p i = (if i < length p \<and> p ! i < i then root_of p (p ! i) else i)"
  by pat_completeness auto
termination
  by (relation "measure (\<lambda>(p, i). i)") auto

declare root_of.simps [simp del]

text \<open>
  Label 0 stays alone in its class: the root of a positive label is positive.
  The invariant of the first pass when it reaches the pixel of raster index \<open>k\<close> in a buffer
  of \<open>n\<close> pixels: the pixels before \<open>k\<close> hold labels below \<^verbatim>\<open>next_label\<close>, the others are
  still binary.
\<close>

definition pos_roots :: "nat list \<Rightarrow> bool" where
  "pos_roots p \<longleftrightarrow> (\<forall>j<length p. 0 < j \<longrightarrow> 0 < root_of p j)"

definition pass1_inv :: "nat \<Rightarrow> nat \<Rightarrow> label_state \<Rightarrow> bool" where
  "pass1_inv n k s \<longleftrightarrow>
     (case s of (px, par, nl) \<Rightarrow>
        length px = n \<and> forest par \<and> pos_roots par \<and> length par = MAX_LABELS \<and>
        1 \<le> nl \<and> nl \<le> MAX_LABELS \<and>
        (\<forall>i<k. unat (px ! i) < nl) \<and>
        (\<forall>i. k \<le> i \<and> i < n \<longrightarrow> px ! i = 0 \<or> px ! i = 0xFFFF))"

text \<open>
  The invariant of the second pass at raster index \<open>k\<close>. \<open>blob_ok\<close> bounds the statistics of
  the blob of label \<open>l\<close>: \<^verbatim>\<open>id\<close> is set once the blob has a pixel, the count is at most \<open>k\<close>
  and the coordinate sums are at most the count times the largest coordinate (which also
  holds if a sum has wrapped). Entry 0 and
  the entries from \<^verbatim>\<open>next_label\<close> on are never written.
\<close>

definition blob_ok :: "nat \<Rightarrow> nat \<Rightarrow> nat \<Rightarrow> nat \<Rightarrow> blob_info \<Rightarrow> bool" where
  "blob_ok w h k l b \<longleftrightarrow>
     (blob_id b = 0 \<or> blob_id b = l) \<and> (0 < pixel_count b \<longrightarrow> blob_id b \<noteq> 0) \<and>
     0 \<le> pixel_count b \<and> pixel_count b \<le> int k \<and>
     unat (sum_x b) \<le> nat (pixel_count b) * (w - 1) \<and>
     unat (sum_y b) \<le> nat (pixel_count b) * (h - 1)"

definition pass2_inv :: "nat \<Rightarrow> nat \<Rightarrow> nat \<Rightarrow> nat \<Rightarrow> stats_state \<Rightarrow> bool" where
  "pass2_inv w h nl k s \<longleftrightarrow>
     (case s of (px, par, blobs) \<Rightarrow>
        length px = w * h \<and> forest par \<and> pos_roots par \<and> length par = MAX_LABELS \<and>
        length blobs = MAX_LABELS \<and> 1 \<le> nl \<and> nl \<le> MAX_LABELS \<and>
        (\<forall>i<w * h. unat (px ! i) < nl) \<and>
        (\<forall>l<MAX_LABELS. blob_ok w h k l (blobs ! l)) \<and>
        (\<forall>l<MAX_LABELS. l = 0 \<or> nl \<le> l \<longrightarrow> blobs ! l = blob_zero))"

text \<open>
  The pixels among the first \<open>k\<close> of the raster that carry the label \<open>l\<close>, and the exact
  statistics of a set \<open>S\<close> of raster indices in a frame of width \<open>w\<close> (pixel \<open>i\<close> has
  \<open>x = i mod w\<close> and \<open>y = i div w\<close>), as natural numbers.
\<close>

definition blob_pixels :: "16 word list \<Rightarrow> nat \<Rightarrow> nat \<Rightarrow> nat set" where
  "blob_pixels px k l = {i. i < k \<and> unat (px ! i) = l}"

definition stats_of :: "nat \<Rightarrow> nat set \<Rightarrow> blob_info \<Rightarrow> bool" where
  "stats_of w S b \<longleftrightarrow>
     pixel_count b = int (card S) \<and>
     unat (sum_x b) = (\<Sum>i\<in>S. i mod w) \<and>
     unat (sum_y b) = (\<Sum>i\<in>S. i div w) \<and>
     unat (sum_x2 b) = (\<Sum>i\<in>S. (i mod w) * (i mod w)) \<and>
     unat (sum_y2 b) = (\<Sum>i\<in>S. (i div w) * (i div w)) \<and>
     unat (sum_xy b) = (\<Sum>i\<in>S. (i mod w) * (i div w))"

definition pass2_exact :: "nat \<Rightarrow> nat \<Rightarrow> stats_state \<Rightarrow> bool" where
  "pass2_exact w k s \<longleftrightarrow>
     (case s of (px, par, blobs) \<Rightarrow>
        \<forall>l. 1 \<le> l \<and> l < MAX_LABELS \<longrightarrow> stats_of w (blob_pixels px k l) (blobs ! l))"

text \<open>
  The second pass stopped after the first \<open>k\<close> pixels of the raster.
\<close>

definition second_pass_upto :: "nat \<Rightarrow> nat \<Rightarrow> stats_state \<Rightarrow> stats_state option" where
  "second_pass_upto w k s = for_each [0..<k] (\<lambda>i. measure_px w (i div w) (i mod w)) s"

text \<open>
  The frame without the pixels that the first pass left unlabeled: every pixel whose label
  is 0 is replaced by black.
\<close>

definition clear_unlabeled :: "16 word list \<Rightarrow> 16 word list \<Rightarrow> 16 word list" where
  "clear_unlabeled buf labels = map (\<lambda>(p, l). if l = 0 then 0 else p) (zip buf labels)"

text \<open>
  A test frame of one row with \<open>n\<close> pixels, every second one white: each white pixel is a
  region of its own. \<open>dotted_labels\<close> is what the first pass makes of it: the regions get
  the labels 1, 2, ... up to \<open>MAX_LABELS - 1\<close>, the regions after that get 0.
\<close>

definition dotted_row :: "nat \<Rightarrow> 16 word list" where
  "dotted_row n = map (\<lambda>i. if even i then 0xFFFF else 0) [0..<n]"

definition dotted_labels :: "nat \<Rightarrow> 16 word list" where
  "dotted_labels n =
     map (\<lambda>i. if even i \<and> i div 2 + 1 < MAX_LABELS then word_of_nat (i div 2 + 1) else 0) [0..<n]"

definition dotted_frame :: "nat \<Rightarrow> camera_fb" where
  "dotted_frame n =
     \<lparr>fb_buf = dotted_row n, fb_width = n, fb_height = 1, fb_format = PIXFORMAT_RGB565\<rparr>"

section \<open>Loops\<close>

lemma for_each_append:
  "for_each (xs @ ys) body s =
     (case for_each xs body s of None \<Rightarrow> None | Some s' \<Rightarrow> for_each ys body s')"
  by (induction xs arbitrary: s) (auto split: option.splits)

lemma for_each_map: "for_each (map g xs) body s = for_each xs (\<lambda>k. body (g k)) s"
  by (induction xs arbitrary: s) (auto split: option.splits)

lemma for_each_cong:
  "(\<And>k s. k \<in> set xs \<Longrightarrow> f k s = g k s) \<Longrightarrow> for_each xs f s = for_each xs g s"
  by (induction xs arbitrary: s) (auto split: option.splits)

lemma for_each_upt_inv:
  assumes "I a s" and "a \<le> n"
    and step: "\<And>k s. k < n \<Longrightarrow> I k s \<Longrightarrow> \<exists>s'. body k s = Some s' \<and> I (Suc k) s'"
  shows "\<exists>s'. for_each [a..<n] body s = Some s' \<and> I n s'"
  using assms(1,2)
proof (induction "n - a" arbitrary: a s)
  case 0
  then show ?case by simp
next
  case (Suc d)
  then have lt: "a < n" by simp
  from step [OF lt Suc.prems(1)] obtain s1 where
    s1: "body a s = Some s1" "I (Suc a) s1" by blast
  have "d = n - Suc a" using Suc.hyps(2) by simp
  from Suc.hyps(1) [OF this s1(2)] lt
  obtain s' where "for_each [Suc a..<n] body s1 = Some s'" "I n s'" by auto
  then show ?case using lt s1 by (simp add: upt_conv_Cons)
qed

lemma raster_flat:
  "for_each [0..<h] (\<lambda>y. for_each [0..<w] (\<lambda>x. body y x)) s =
   for_each [0..<w * h] (\<lambda>k. body (k div w) (k mod w)) s"
proof (induction h arbitrary: s)
  case 0
  then show ?case by simp
next
  case (Suc h)
  have row: "for_each [w * h..<w * h + w] (\<lambda>k. body (k div w) (k mod w)) t =
             for_each [0..<w] (body h) t" for t
  proof -
    have "[w * h..<w * h + w] = map (\<lambda>x. x + w * h) [0..<w]"
      by (simp add: map_add_upt add.commute)
    then have "for_each [w * h..<w * h + w] (\<lambda>k. body (k div w) (k mod w)) t =
               for_each [0..<w] (\<lambda>x. body ((x + w * h) div w) ((x + w * h) mod w)) t"
      by (simp add: for_each_map)
    also have "\<dots> = for_each [0..<w] (body h) t"
      by (rule for_each_cong) simp
    finally show ?thesis .
  qed
  have "[0..<w * Suc h] = [0..<w * h] @ [w * h..<w * h + w]"
    using upt_add_eq_append [of 0 "w * h" w] by (simp add: add.commute)
  then show ?case
    by (simp add: for_each_append Suc.IH row split: option.splits)
qed

lemma root_of_le: "root_of p i \<le> i"
proof (induction i rule: less_induct)
  case (less i)
  show ?case
  proof (cases "i < length p \<and> p ! i < i")
    case True
    then have "root_of p (p ! i) \<le> p ! i" using less by blast
    then show ?thesis using True by (subst root_of.simps) simp
  next
    case False
    then show ?thesis by (subst root_of.simps) auto
  qed
qed

lemma root_of_root: "forest p \<Longrightarrow> i < length p \<Longrightarrow> p ! i = i \<Longrightarrow> root_of p i = i"
  by (subst root_of.simps) simp

lemma root_of_parent: "forest p \<Longrightarrow> i < length p \<Longrightarrow> root_of p (p ! i) = root_of p i"
proof (cases "p ! i < i")
  case True
  assume "i < length p"
  then have "root_of p i = root_of p (p ! i)" using True by (subst root_of.simps) simp
  then show ?thesis by simp
next
  case False
  assume "forest p" "i < length p"
  then have "p ! i = i" using False by (auto simp: forest_def le_less)
  then show ?thesis by simp
qed

lemma root_of_fix: "forest p \<Longrightarrow> i < length p \<Longrightarrow> p ! root_of p i = root_of p i"
proof (induction i rule: less_induct)
  case (less i)
  show ?case
  proof (cases "p ! i < i")
    case True
    then have "p ! i < length p" using less.prems by simp
    from less.IH [OF True less.prems(1) this] show ?thesis
      using True less.prems by (subst (1 2) root_of.simps) simp
  next
    case False
    then have "p ! i = i" using less.prems by (auto simp: forest_def le_less)
    then show ?thesis using less.prems by (simp add: root_of_root)
  qed
qed

lemma root_of_idem: "forest p \<Longrightarrow> i < length p \<Longrightarrow> root_of p (root_of p i) = root_of p i"
proof -
  assume a: "forest p" "i < length p"
  have "root_of p i < length p" using a(2) root_of_le [of p i] by simp
  then show ?thesis using a by (simp add: root_of_root root_of_fix)
qed

lemma dsu_find_spec:
  assumes "forest p" "i < length p"
  shows "\<exists>p'. dsu_find p i = Some (p', root_of p i) \<and> length p' = length p \<and>
              (\<forall>k<length p. p' ! k = p ! k \<or> p' ! k = root_of p k)"
  using assms(2)
proof (induction i rule: less_induct)
  case (less i)
  show ?case
  proof (cases "p ! i = i")
    case True
    then show ?thesis using less.prems assms(1)
      by (subst dsu_find.simps) (simp add: root_of_root)
  next
    case False
    then have lt: "p ! i < i" using less.prems assms(1) by (auto simp: forest_def le_less)
    then have "p ! i < length p" using less.prems by simp
    from less.IH [OF lt this] obtain p1 where
      p1: "dsu_find p (p ! i) = Some (p1, root_of p (p ! i))" "length p1 = length p"
          "\<forall>k<length p. p1 ! k = p ! k \<or> p1 ! k = root_of p k" by blast
    have r: "root_of p (p ! i) = root_of p i" using assms(1) less.prems by (rule root_of_parent)
    have "dsu_find p i = Some (p1[i := root_of p i], root_of p i)"
      using False less.prems p1(1,2) r by (subst dsu_find.simps) simp
    moreover have "\<forall>k<length p. p1[i := root_of p i] ! k = p ! k \<or> p1[i := root_of p i] ! k = root_of p k"
    proof (intro allI impI)
      fix k assume k: "k < length p"
      show "p1[i := root_of p i] ! k = p ! k \<or> p1[i := root_of p i] ! k = root_of p k"
      proof (cases "k = i")
        case True
        then show ?thesis using k p1(2) by simp
      next
        case False
        then show ?thesis using k p1(3) by simp
      qed
    qed
    ultimately show ?thesis using p1(2) by simp
  qed
qed

lemma forest_compress:
  assumes "forest p" "length p' = length p"
    "\<forall>k<length p. p' ! k = p ! k \<or> p' ! k = root_of p k"
  shows "forest p'"
  unfolding forest_def
proof (intro allI impI)
  fix k assume "k < length p'"
  then have k: "k < length p" using assms(2) by simp
  with assms(3) have "p' ! k = p ! k \<or> p' ! k = root_of p k" by blast
  then show "p' ! k \<le> k" using assms(1) k root_of_le [of p k] by (auto simp: forest_def)
qed

lemma root_of_compress:
  assumes "forest p" "length p' = length p"
    "\<forall>k<length p. p' ! k = p ! k \<or> p' ! k = root_of p k"
    "k < length p"
  shows "root_of p' k = root_of p k"
  using assms(4)
proof (induction k rule: less_induct)
  case (less k)
  have f': "forest p'" using assms(1-3) by (rule forest_compress)
  have k': "k < length p'" using less.prems assms(2) by simp
  show ?case
  proof (cases "p' ! k < k")
    case True
    then have pk: "p' ! k < length p" using less.prems by simp
    have "root_of p' k = root_of p' (p' ! k)" using f' k' by (simp add: root_of_parent)
    also have "\<dots> = root_of p (p' ! k)" using less.IH [OF True pk] .
    also have "\<dots> = root_of p k"
      using assms(3) less.prems assms(1) by (auto simp: root_of_parent root_of_idem)
    finally show ?thesis .
  next
    case False
    then have eq: "p' ! k = k" using f' k' by (auto simp: forest_def le_less)
    then have "root_of p' k = k" using f' k' by (simp add: root_of_root)
    moreover have "root_of p k = k"
    proof -
      from assms(3) less.prems have "p' ! k = p ! k \<or> p' ! k = root_of p k" by blast
      then show ?thesis using eq assms(1) less.prems by (auto simp: root_of_root)
    qed
    ultimately show ?thesis by simp
  qed
qed

section \<open>Union-find\<close>

lemma root_of_link:
  assumes f: "forest p" and a: "a < length p" "p ! a = a" and b: "b < length p" "p ! b = b"
    and ab: "a < b" and k: "k < length p"
  shows "root_of (p[b := a]) k = (if root_of p k = b then a else root_of p k)"
proof -
  let ?q = "p[b := a]"
  have fq: "forest ?q"
    unfolding forest_def
  proof (intro allI impI)
    fix i assume "i < length ?q"
    then show "?q ! i \<le> i" using f ab by (cases "i = b") (auto simp: forest_def)
  qed
  have qa: "root_of ?q a = a" using fq a ab by (simp add: root_of_root)
  show ?thesis using k
  proof (induction k rule: less_induct)
    case (less k)
    have kq: "k < length ?q" using less.prems by simp
    show ?case
    proof (cases "k = b")
      case True
      have "length ?q = length p" by simp
      then have "root_of ?q (?q ! b) = root_of ?q b" using root_of_parent [OF fq, of b] b by simp
      then have "root_of ?q b = a" using b qa by simp
      then show ?thesis using True f b by (simp add: root_of_root)
    next
      case False
      then have qk: "?q ! k = p ! k" by simp
      show ?thesis
      proof (cases "p ! k < k")
        case True
        then have pk: "p ! k < length p" using less.prems by simp
        have "root_of ?q (?q ! k) = root_of ?q k" using root_of_parent [OF fq kq] .
        then have "root_of ?q k = root_of ?q (p ! k)" using qk by simp
        also have "\<dots> = (if root_of p (p ! k) = b then a else root_of p (p ! k))"
          using less.IH [OF True pk] .
        finally show ?thesis using f less.prems by (simp add: root_of_parent)
      next
        case F2: False
        then have "p ! k = k" using f less.prems by (auto simp: forest_def le_less)
        then show ?thesis using f fq less.prems qk False by (simp add: root_of_root)
      qed
    qed
  qed
qed

lemma forest_link:
  assumes "forest p" "a < b"
  shows "forest (p[b := a])"
  unfolding forest_def
proof (intro allI impI)
  fix i assume "i < length (p[b := a])"
  then show "p[b := a] ! i \<le> i" using assms by (cases "i = b") (auto simp: forest_def)
qed

lemma dsu_unite_spec:
  assumes f: "forest p" and i: "i < length p" and j: "j < length p"
  shows "\<exists>p'. dsu_unite p i j = Some p' \<and> length p' = length p \<and> forest p' \<and>
           (\<forall>k<length p. root_of p' k =
              (if root_of p k = max (root_of p i) (root_of p j)
               then min (root_of p i) (root_of p j) else root_of p k))"
proof -
  from dsu_find_spec [OF f i] obtain p1 where
    p1: "dsu_find p i = Some (p1, root_of p i)" "length p1 = length p"
        "\<forall>k<length p. p1 ! k = p ! k \<or> p1 ! k = root_of p k" by blast
  have f1: "forest p1" using f p1(2,3) by (rule forest_compress)
  have r1: "root_of p1 k = root_of p k" if "k < length p" for k
    using f p1(2,3) that by (rule root_of_compress)
  have j1: "j < length p1" using j p1(2) by simp
  from dsu_find_spec [OF f1 j1] obtain p2 where
    p2: "dsu_find p1 j = Some (p2, root_of p1 j)" "length p2 = length p1"
        "\<forall>k<length p1. p2 ! k = p1 ! k \<or> p2 ! k = root_of p1 k" by blast
  have f2: "forest p2" using f1 p2(2,3) by (rule forest_compress)
  have r2: "root_of p2 k = root_of p k" if "k < length p" for k
  proof -
    have "k < length p1" using that p1(2) by simp
    with f1 p2(2,3) have "root_of p2 k = root_of p1 k" by (rule root_of_compress)
    then show ?thesis using r1 [OF that] by simp
  qed
  let ?ri = "root_of p i" and ?rj = "root_of p j"
  have len2: "length p2 = length p" using p1(2) p2(2) by simp
  have ri: "?ri < length p2" using i root_of_le [of p i] len2 by simp
  have rj: "?rj < length p2" using j root_of_le [of p j] len2 by simp
  have fi: "p2 ! ?ri = ?ri" using root_of_fix [OF f2, of i] i len2 r2 [OF i] by simp
  have fj: "p2 ! ?rj = ?rj" using root_of_fix [OF f2, of j] j len2 r2 [OF j] by simp
  have call: "dsu_unite p i j =
      (if ?ri \<noteq> ?rj then (if ?ri < ?rj then Some (p2[?rj := ?ri]) else Some (p2[?ri := ?rj]))
       else Some p2)"
    using p1(1) p2(1) r1 [OF j] ri rj by (simp add: dsu_unite_def array_set_def)
  consider (eq) "?ri = ?rj" | (lt) "?ri < ?rj" | (gt) "?rj < ?ri" by linarith
  then show ?thesis
  proof cases
    case eq
    then show ?thesis using call f2 len2 r2 by simp
  next
    case lt
    have "root_of (p2[?rj := ?ri]) k = (if root_of p k = ?rj then ?ri else root_of p k)"
      if "k < length p" for k
      using root_of_link [OF f2 ri fi rj fj lt, of k] that len2 r2 [OF that] by simp
    then show ?thesis using call lt len2 forest_link [OF f2 lt]
      by (simp add: max_def min_def)
  next
    case gt
    have "root_of (p2[?ri := ?rj]) k = (if root_of p k = ?ri then ?rj else root_of p k)"
      if "k < length p" for k
      using root_of_link [OF f2 rj fj ri fi gt, of k] that len2 r2 [OF that] by simp
    then show ?thesis using call gt len2 forest_link [OF f2 gt]
      by (simp add: max_def min_def)
  qed
qed

lemma dsu_init_spec:
  assumes "length p = MAX_LABELS"
  shows "dsu_init p = Some [0..<MAX_LABELS]"
proof -
  let ?I = "\<lambda>k q. length q = MAX_LABELS \<and> (\<forall>i<k. q ! i = i)"
  have "\<exists>q. for_each [0..<MAX_LABELS] (\<lambda>i p. array_set p i i) p = Some q \<and> ?I MAX_LABELS q"
  proof (rule for_each_upt_inv [where I = ?I])
    show "?I 0 p" using assms by simp
    show "0 \<le> MAX_LABELS" by simp
  next
    fix k q assume "k < MAX_LABELS" "?I k q"
    then show "\<exists>s'. array_set q k k = Some s' \<and> ?I (Suc k) s'"
      by (auto simp: array_set_def nth_list_update less_Suc_eq)
  qed
  then obtain q where q: "dsu_init p = Some q" "length q = MAX_LABELS" "\<forall>i<MAX_LABELS. q ! i = i"
    unfolding dsu_init_def by blast
  have "q = [0..<MAX_LABELS]" using q(2,3) by (intro nth_equalityI) auto
  then show ?thesis using q(1) by simp
qed

lemma forest_init: "forest [0..<n]"
  by (simp add: forest_def)

lemma root_of_init: "k < n \<Longrightarrow> root_of [0..<n] k = k"
  by (simp add: root_of_root forest_init)

lemma ecl_refl: "(a, a) \<in> equiv_closure S"
  by (simp add: equiv_closure_def)

lemma ecl_sym: "(a, b) \<in> equiv_closure S \<Longrightarrow> (b, a) \<in> equiv_closure S"
proof -
  have "sym ((S \<union> S\<inverse>)\<^sup>*)" by (intro sym_rtrancl sym_Un_converse)
  then show "(a, b) \<in> equiv_closure S \<Longrightarrow> (b, a) \<in> equiv_closure S"
    unfolding equiv_closure_def by (rule symD)
qed

lemma ecl_trans:
  "(a, b) \<in> equiv_closure S \<Longrightarrow> (b, c) \<in> equiv_closure S \<Longrightarrow> (a, c) \<in> equiv_closure S"
  unfolding equiv_closure_def by (rule rtrancl_trans)

lemma ecl_mono: "S \<subseteq> T \<Longrightarrow> equiv_closure S \<subseteq> equiv_closure T"
  unfolding equiv_closure_def by (intro rtrancl_mono) auto

lemma ecl_base: "(a, b) \<in> S \<Longrightarrow> (a, b) \<in> equiv_closure S"
  unfolding equiv_closure_def by auto

lemma ecl_insert:
  "(a, b) \<in> equiv_closure (insert (i, j) S) \<longleftrightarrow>
     (a, b) \<in> equiv_closure S \<or>
     ((a, i) \<in> equiv_closure S \<or> (a, j) \<in> equiv_closure S) \<and>
     ((b, i) \<in> equiv_closure S \<or> (b, j) \<in> equiv_closure S)"
  (is "?L \<longleftrightarrow> ?R a b")
proof
  assume ?L
  then have "(a, b) \<in> (insert (i, j) S \<union> (insert (i, j) S)\<inverse>)\<^sup>*"
    by (simp add: equiv_closure_def)
  then show "?R a b"
  proof (induction rule: rtrancl_induct)
    case base
    then show ?case by (simp add: ecl_refl)
  next
    case (step b c)
    from step.hyps(2) consider "(b, c) \<in> equiv_closure S" | "b = i \<and> c = j" | "b = j \<and> c = i"
      by (auto simp: equiv_closure_def)
    then show ?case
    proof cases
      case 1
      have bc: "(c, b) \<in> equiv_closure S" using 1 by (rule ecl_sym)
      from step.IH show ?thesis
        using 1 bc by (meson ecl_trans)
    next
      case 2
      from step.IH show ?thesis using 2 by (meson ecl_refl ecl_sym ecl_trans)
    next
      case 3
      from step.IH show ?thesis using 3 by (meson ecl_refl ecl_sym ecl_trans)
    qed
  qed
next
  let ?T = "insert (i, j) S"
  have m: "equiv_closure S \<subseteq> equiv_closure ?T" by (rule ecl_mono) auto
  have ij: "(i, j) \<in> equiv_closure ?T" by (rule ecl_base) simp
  assume "?R a b"
  then show ?L
    using m ij by (meson ecl_sym ecl_trans subsetD)
qed

lemma ecl_bounded:
  assumes "(a, b) \<in> equiv_closure S" "\<forall>(i, j)\<in>S. i < n \<and> j < n" "a < n"
  shows "b < n"
proof -
  from assms(1) have "(a, b) \<in> (S \<union> S\<inverse>)\<^sup>*" by (simp add: equiv_closure_def)
  then show ?thesis
    using assms(2,3) by (induction rule: rtrancl_induct) auto
qed

lemma unite_seq_inv:
  assumes "forest p" "length p = n" "\<forall>(i, j)\<in>set us. i < n \<and> j < n"
    "\<forall>a<n. \<forall>b<n. root_of p a = root_of p b \<longleftrightarrow> (a, b) \<in> equiv_closure S"
  shows "\<exists>p'. dsu_unite_seq us p = Some p' \<and> forest p' \<and> length p' = n \<and>
           (\<forall>a<n. \<forall>b<n. root_of p' a = root_of p' b \<longleftrightarrow> (a, b) \<in> equiv_closure (S \<union> set us))"
  using assms
proof (induction us arbitrary: p S)
  case Nil
  then show ?case by (simp add: dsu_unite_seq_def)
next
  case (Cons u us)
  obtain i j where u: "u = (i, j)" by (cases u)
  have i: "i < length p" and j: "j < length p" using Cons.prems(2,3) u by auto
  from dsu_unite_spec [OF Cons.prems(1) i j] obtain p1 where
    p1: "dsu_unite p i j = Some p1" "length p1 = length p" "forest p1"
        "\<forall>k<length p. root_of p1 k =
              (if root_of p k = max (root_of p i) (root_of p j)
               then min (root_of p i) (root_of p j) else root_of p k)" by blast
  have inv1: "\<forall>a<n. \<forall>b<n. root_of p1 a = root_of p1 b \<longleftrightarrow> (a, b) \<in> equiv_closure (insert (i, j) S)"
  proof (intro allI impI)
    fix a b assume a: "a < n" and b: "b < n"
    have in_n: "i < n" "j < n" using i j Cons.prems(2) by auto
    have ai: "root_of p a = root_of p i \<longleftrightarrow> (a, i) \<in> equiv_closure S"
      and aj: "root_of p a = root_of p j \<longleftrightarrow> (a, j) \<in> equiv_closure S"
      and bi: "root_of p b = root_of p i \<longleftrightarrow> (b, i) \<in> equiv_closure S"
      and bj: "root_of p b = root_of p j \<longleftrightarrow> (b, j) \<in> equiv_closure S"
      and ab: "root_of p a = root_of p b \<longleftrightarrow> (a, b) \<in> equiv_closure S"
      using Cons.prems(4) a b in_n by blast+
    have ra: "root_of p1 a = (if root_of p a = max (root_of p i) (root_of p j)
               then min (root_of p i) (root_of p j) else root_of p a)"
      and rb: "root_of p1 b = (if root_of p b = max (root_of p i) (root_of p j)
               then min (root_of p i) (root_of p j) else root_of p b)"
      using p1(4) a b Cons.prems(2) by auto
    have "root_of p1 a = root_of p1 b \<longleftrightarrow>
            root_of p a = root_of p b \<or>
            (root_of p a = root_of p i \<or> root_of p a = root_of p j) \<and>
            (root_of p b = root_of p i \<or> root_of p b = root_of p j)"
      unfolding ra rb by (auto simp: max_def min_def split: if_splits)
    then show "root_of p1 a = root_of p1 b \<longleftrightarrow> (a, b) \<in> equiv_closure (insert (i, j) S)"
      unfolding ecl_insert ai aj bi bj ab .
  qed
  have len1: "length p1 = n" using p1(2) Cons.prems(2) by simp
  have rest: "\<forall>(i, j)\<in>set us. i < n \<and> j < n" using Cons.prems(3) by simp
  from Cons.IH [OF p1(3) len1 rest inv1] obtain p' where
    p': "dsu_unite_seq us p1 = Some p'" "forest p'" "length p' = n"
        "\<forall>a<n. \<forall>b<n. root_of p' a = root_of p' b \<longleftrightarrow>
            (a, b) \<in> equiv_closure (insert (i, j) S \<union> set us)" by blast
  have "dsu_unite_seq (u # us) p = Some p'"
    using p1(1) p'(1) u by (simp add: dsu_unite_seq_def)
  moreover have "insert (i, j) S \<union> set us = S \<union> set (u # us)" using u by auto
  ultimately show ?case using p'(2,3,4) by simp
qed

lemma dsu_find_seq_spec:
  assumes "forest p" "\<forall>a\<in>set as. a < length p"
  shows "\<exists>p'. dsu_find_seq p as = Some (p', map (root_of p) as)"
  using assms
proof (induction as arbitrary: p)
  case Nil
  then show ?case by simp
next
  case (Cons a as)
  have a: "a < length p" using Cons.prems(2) by simp
  from dsu_find_spec [OF Cons.prems(1) a] obtain p1 where
    p1: "dsu_find p a = Some (p1, root_of p a)" "length p1 = length p"
        "\<forall>k<length p. p1 ! k = p ! k \<or> p1 ! k = root_of p k" by blast
  have f1: "forest p1" using Cons.prems(1) p1(2,3) by (rule forest_compress)
  have r1: "root_of p1 k = root_of p k" if "k < length p" for k
    using Cons.prems(1) p1(2,3) that by (rule root_of_compress)
  have as: "\<forall>a\<in>set as. a < length p1" using Cons.prems(2) p1(2) by simp
  from Cons.IH [OF f1 as] obtain p' where
    p': "dsu_find_seq p1 as = Some (p', map (root_of p1) as)" by blast
  have "map (root_of p1) as = map (root_of p) as"
    using r1 Cons.prems(2) by (intro map_cong) simp_all
  then show ?case using p1(1) p' by simp
qed

text \<open>
  Claim C5. After \<^verbatim>\<open>dsu_init\<close> and any sequence of \<^verbatim>\<open>dsu_unite\<close> calls with arguments in
  \<open>1..MAX_LABELS-1\<close>, all calls return, and so does any sequence of \<^verbatim>\<open>dsu_find\<close> calls that
  follows (each working on the array the previous one compressed). The root returned for a
  label belongs to the label's equivalence class and is the least element of the class; two
  labels of the same class get the same root. The class depends on the set of united pairs
  only, so the roots do not depend on the order of the calls.
\<close>

theorem dsu_find_class_minimum:
  assumes us: "\<forall>(i, j)\<in>set us. 1 \<le> i \<and> i < MAX_LABELS \<and> 1 \<le> j \<and> j < MAX_LABELS"
    and len: "length parent = MAX_LABELS"
    and labels: "\<forall>a\<in>set labels. a < MAX_LABELS"
  shows "\<exists>p p' roots.
           (dsu_init parent \<bind> dsu_unite_seq us) = Some p \<and>
           dsu_find_seq p labels = Some (p', roots) \<and> length roots = length labels \<and>
           (\<forall>k<length labels.
              roots ! k \<in> label_class us (labels ! k) \<and>
              (\<forall>b\<in>label_class us (labels ! k). roots ! k \<le> b) \<and>
              (\<forall>j<length labels. labels ! j \<in> label_class us (labels ! k) \<longrightarrow>
                 roots ! j = roots ! k))"
proof -
  let ?n = MAX_LABELS
  let ?p0 = "[0..<?n]"
  have init: "dsu_init parent = Some ?p0" using len by (rule dsu_init_spec)
  have us': "\<forall>(i, j)\<in>set us. i < ?n \<and> j < ?n" using us by auto
  have inv0: "\<forall>a<?n. \<forall>b<?n. root_of ?p0 a = root_of ?p0 b \<longleftrightarrow> (a, b) \<in> equiv_closure {}"
    by (auto simp: root_of_init equiv_closure_def)
  from unite_seq_inv [OF forest_init _ us' inv0] obtain p where
    p: "dsu_unite_seq us ?p0 = Some p" "forest p" "length p = ?n"
       "\<forall>a<?n. \<forall>b<?n. root_of p a = root_of p b \<longleftrightarrow> (a, b) \<in> equiv_closure (set us)"
    by auto
  have lab': "\<forall>a\<in>set labels. a < length p" using labels p(3) by simp
  from dsu_find_seq_spec [OF p(2) lab'] obtain p' where
    p': "dsu_find_seq p labels = Some (p', map (root_of p) labels)" by blast
  have each: "root_of p a \<in> label_class us a \<and> (\<forall>b\<in>label_class us a. root_of p a \<le> b \<and> root_of p b = root_of p a)"
    if a: "a < ?n" for a
  proof -
    let ?r = "root_of p a"
    have r_lt: "?r < ?n" using a root_of_le [of p a] by simp
    have "root_of p a = root_of p ?r" using root_of_idem [OF p(2), of a] a p(3) by simp
    then have r_in: "?r \<in> label_class us a" using p(4) a r_lt by (simp add: label_class_def)
    have "?r \<le> b \<and> root_of p b = ?r" if "b \<in> label_class us a" for b
    proof -
      have ab: "(a, b) \<in> equiv_closure (set us)" using that by (simp add: label_class_def)
      have b: "b < ?n" using ab us' a by (rule ecl_bounded)
      have "root_of p a = root_of p b" using p(4) a b ab by blast
      then show ?thesis using root_of_le [of p b] by simp
    qed
    then show ?thesis using r_in by blast
  qed
  have "roots ! k \<in> label_class us (labels ! k) \<and>
        (\<forall>b\<in>label_class us (labels ! k). roots ! k \<le> b) \<and>
        (\<forall>j<length labels. labels ! j \<in> label_class us (labels ! k) \<longrightarrow> roots ! j = roots ! k)"
    if k: "k < length labels" and roots: "roots = map (root_of p) labels" for k roots
  proof -
    have "labels ! k < ?n" using labels k by simp
    from each [OF this] show ?thesis using k roots by simp
  qed
  then show ?thesis using init p(1) p' by simp
qed

text \<open>
  The hypotheses of C5 hold for the calls (3,5), (7,5), (2,7) and the labels 5, 3, 9.
\<close>

theorem dsu_find_class_minimum_witness:
  "list_all (\<lambda>(i, j). 1 \<le> i \<and> i < MAX_LABELS \<and> 1 \<le> j \<and> j < MAX_LABELS)
      [(3, 5), (7, 5), (2, 7)] \<and>
   length (replicate 256 (0::nat)) = MAX_LABELS \<and>
   list_all (\<lambda>a. a < MAX_LABELS) [5, 3, 9] \<and>
   (\<exists>p p' roots.
      (dsu_init (replicate 256 0) \<bind> dsu_unite_seq [(3, 5), (7, 5), (2, 7)]) = Some p \<and>
      dsu_find_seq p [5, 3, 9] = Some (p', roots) \<and> length roots = length [5, 3, 9 :: nat] \<and>
      (\<forall>k<length [5, 3, 9 :: nat].
         roots ! k \<in> label_class [(3, 5), (7, 5), (2, 7)] ([5, 3, 9] ! k) \<and>
         (\<forall>b\<in>label_class [(3, 5), (7, 5), (2, 7)] ([5, 3, 9] ! k). roots ! k \<le> b) \<and>
         (\<forall>j<length [5, 3, 9 :: nat].
            [5, 3, 9] ! j \<in> label_class [(3, 5), (7, 5), (2, 7)] ([5, 3, 9] ! k) \<longrightarrow>
            roots ! j = roots ! k)))"
proof -
  have h1: "\<forall>(i, j)\<in>set [(3, 5), (7, 5), (2::nat, 7::nat)].
       1 \<le> i \<and> i < MAX_LABELS \<and> 1 \<le> j \<and> j < MAX_LABELS"
    by (simp add: MAX_LABELS_def)
  have h2: "length (replicate 256 (0::nat)) = MAX_LABELS" by (simp add: MAX_LABELS_def)
  have h3: "\<forall>a\<in>set [5, 3, 9 :: nat]. a < MAX_LABELS" by (simp add: MAX_LABELS_def)
  have h0: "list_all (\<lambda>(i, j). 1 \<le> i \<and> i < MAX_LABELS \<and> 1 \<le> j \<and> j < MAX_LABELS)
      [(3, 5), (7, 5), (2, 7)]"
    by (simp add: MAX_LABELS_def)
  have h3': "list_all (\<lambda>a. a < MAX_LABELS) [5, 3, 9]" by (simp add: MAX_LABELS_def)
  from dsu_find_class_minimum [OF h1 h2 h3] h0 h2 h3' show ?thesis by blast
qed

section \<open>Binarization\<close>

lemma m248: "(0xF8 :: 8 word) = push_bit 3 (mask 5)" by (simp add: mask_eq_exp_minus_1)
lemma m7: "(0x07 :: 8 word) = mask 3" by (simp add: mask_eq_exp_minus_1)
lemma m224: "(0xE0 :: 8 word) = push_bit 5 (mask 3)" by (simp add: mask_eq_exp_minus_1)
lemma m31: "(0x1F :: 8 word) = mask 5" by (simp add: mask_eq_exp_minus_1)

lemma decode_red:
  "(ucast (p :: 16 word) :: 8 word) AND 0xF8 = red8 (rgb565_value p)"
  unfolding m248 red8_def rgb565_value_def
  by (rule bit_word_eqI) (auto simp: bit_simps)

lemma decode_green:
  "push_bit 5 ((ucast (p :: 16 word) :: 8 word) AND 0x07) OR
   drop_bit 3 ((ucast (drop_bit 8 p) :: 8 word) AND 0xE0) = green8 (rgb565_value p)"
  unfolding m7 m224 green8_def rgb565_value_def
  by (rule bit_word_eqI) (auto simp: bit_simps dest: bit_imp_le_length)

lemma decode_blue:
  "push_bit 3 ((ucast (drop_bit 8 (p :: 16 word)) :: 8 word) AND 0x1F) = blue8 (rgb565_value p)"
  unfolding m31 blue8_def rgb565_value_def
  by (rule bit_word_eqI) (auto simp: bit_simps)

lemma binarize_px_spec:
  "binarize_px p = (if is_bright (rgb565_value p) then 0xFFFF else 0)"
  unfolding binarize_px_def Let_def decode_red decode_green decode_blue is_bright_def ..

lemma binarize_map:
  assumes "length pixels = w * h"
  shows "binarize w h pixels = Some (map binarize_px pixels)"
proof -
  let ?n = "w * h"
  let ?body = "\<lambda>i px. do { p \<leftarrow> array_get px i; array_set px i (binarize_px p) }"
  let ?I = "\<lambda>k px. length px = ?n \<and> (\<forall>i<?n. px ! i = (if i < k then binarize_px (pixels ! i) else pixels ! i))"
  have "\<exists>px. for_each [0..<?n] ?body pixels = Some px \<and> ?I ?n px"
  proof (rule for_each_upt_inv [where I = ?I])
    show "?I 0 pixels" using assms by simp
    show "0 \<le> ?n" by simp
  next
    fix k px assume k: "k < ?n" and I: "?I k px"
    then have "?body k px = Some (px[k := binarize_px (pixels ! k)])"
      by (simp add: array_get_def array_set_def)
    moreover have "?I (Suc k) (px[k := binarize_px (pixels ! k)])"
      using I k by (auto simp: nth_list_update less_Suc_eq)
    ultimately show "\<exists>s'. ?body k px = Some s' \<and> ?I (Suc k) s'" by blast
  qed
  then obtain px where px: "binarize w h pixels = Some px" "length px = ?n"
      "\<forall>i<?n. px ! i = binarize_px (pixels ! i)"
    unfolding binarize_def by auto
  have "px = map binarize_px pixels"
    using px(2,3) assms by (intro nth_equalityI) auto
  then show ?thesis using px(1) by simp
qed

text \<open>
  Claim C6. Binarization succeeds on a buffer of \<^verbatim>\<open>width * height\<close> pixels and rewrites the
  same buffer (the length is unchanged): every pixel becomes \<^verbatim>\<open>0xFFFF\<close> if the red, green
  and blue bit-fields of its RGB565 colour, each shifted up to the 8-bit range, all exceed
  230, and 0 otherwise. \<open>decode_red\<close>, \<open>decode_green\<close> and \<open>decode_blue\<close> show that the
  byte-wise decoding of the source yields exactly these three fields.
\<close>

theorem binarize_in_place:
  assumes "length pixels = w * h"
  shows "\<exists>px. binarize w h pixels = Some px \<and> length px = length pixels \<and>
           (\<forall>i<w * h. px ! i = (if is_bright (rgb565_value (pixels ! i)) then 0xFFFF else 0))"
  using binarize_map [OF assms] assms by (simp add: binarize_px_spec)

text \<open>
  The hypothesis of C6 holds for a frame of two pixels.
\<close>

theorem binarize_in_place_witness:
  "length [0xFFFF, 0x1234 :: 16 word] = 2 * 1 \<and>
   (\<exists>px. binarize 2 1 [0xFFFF, 0x1234] = Some px \<and> length px = length [0xFFFF, 0x1234 :: 16 word] \<and>
           (\<forall>i<2 * 1. px ! i = (if is_bright (rgb565_value ([0xFFFF, 0x1234] ! i)) then 0xFFFF else 0)))"
  using binarize_in_place [of "[0xFFFF, 0x1234]" 2 1] by simp

lemma binarize_example: "binarize 2 1 [0xFFFF, 0x1234] = Some [0xFFFF, 0]"
  by code_simp

text \<open>
  Claim C2, amended. A frame whose format is not RGB565 is rejected at once: the call
  returns -1 and leaves the pixel buffer, the result struct and \<^verbatim>\<open>parent\<close> as they were.
  (The source has no check for an empty buffer.)
\<close>

theorem wrong_format_rejected:
  assumes "fb_format fb \<noteq> PIXFORMAT_RGB565"
  shows "find_light_source fb result parent = Some (-1, result, fb_buf fb, parent)"
  using assms by (simp add: find_light_source_def)

text \<open>
  The hypothesis of the amended C2 holds for a JPEG frame.
\<close>

theorem wrong_format_rejected_witness:
  "find_light_source \<lparr>fb_buf = [0xFFFF], fb_width = 1, fb_height = 1, fb_format = PIXFORMAT_JPEG\<rparr>
      \<lparr>lsr_x = 1, lsr_y = 1, lsr_pixel_count = 7\<rparr> [0..<MAX_LABELS] =
   Some (-1, \<lparr>lsr_x = 1, lsr_y = 1, lsr_pixel_count = 7\<rparr>, [0xFFFF], [0..<MAX_LABELS])"
  using wrong_format_rejected
    [of "\<lparr>fb_buf = [0xFFFF], fb_width = 1, fb_height = 1, fb_format = PIXFORMAT_JPEG\<rparr>"]
  by simp

lemma select_best_none: "select_best blobs (Suc 0) = Some (-1, 0)"
  by (simp add: select_best_def)

lemma scan_empty:
  "length parent = MAX_LABELS \<Longrightarrow>
   scan_frame \<lparr>fb_buf = [], fb_width = 0, fb_height = 0, fb_format = f\<rparr> parent =
     Some ([], [0..<MAX_LABELS], 1, replicate MAX_LABELS blob_zero)"
  by (simp add: scan_frame_def label_frame_def binarize_def dsu_init_spec first_pass_def
      second_pass_def)

text \<open>
  Claim C2 as stated fails on an empty RGB565 frame: the call does not stop at once, it
  re-initialises \<^verbatim>\<open>parent\<close> and overwrites the caller's result struct with the sentinel.
\<close>

theorem empty_frame_writes_result:
  "find_light_source \<lparr>fb_buf = [], fb_width = 0, fb_height = 0, fb_format = PIXFORMAT_RGB565\<rparr>
      \<lparr>lsr_x = 1, lsr_y = 1, lsr_pixel_count = 7\<rparr> (replicate MAX_LABELS 0) =
   Some (-1, \<lparr>lsr_x = 0, lsr_y = 0, lsr_pixel_count = 0\<rparr>, [], [0..<MAX_LABELS])"
  by (simp add: find_light_source_def scan_empty select_best_none)



text \<open>
  Claim C9. Whatever the global \<^verbatim>\<open>parent\<close> array holds when the call starts, the return code,
  the result struct and the pixel buffer are the same; for an RGB565 frame the outcome does
  not depend on the incoming result struct either, and \<^verbatim>\<open>parent\<close> ends the same. The label
  counter and the blob table are locals of the call.
\<close>

theorem find_light_source_pure:
  assumes "length parent1 = MAX_LABELS" "length parent2 = MAX_LABELS"
  shows "(fb_format fb = PIXFORMAT_RGB565 \<longrightarrow>
            find_light_source fb result1 parent1 = find_light_source fb result2 parent2) \<and>
         map_option (\<lambda>(rc, res, px, par). (rc, res, px)) (find_light_source fb result parent1) =
         map_option (\<lambda>(rc, res, px, par). (rc, res, px)) (find_light_source fb result parent2)"
proof -
  have "scan_frame fb parent1 = scan_frame fb parent2"
    using assms by (simp add: scan_frame_def label_frame_def dsu_init_spec)
  then show ?thesis by (simp add: find_light_source_def)
qed

text \<open>
  The hypotheses of C9 hold for two different contents of \<^verbatim>\<open>parent\<close> and a black 1x1 frame.
\<close>

theorem find_light_source_pure_witness:
  "length (replicate MAX_LABELS (7::nat)) = MAX_LABELS \<and> length [0..<MAX_LABELS] = MAX_LABELS \<and>
   find_light_source \<lparr>fb_buf = [0], fb_width = 1, fb_height = 1, fb_format = PIXFORMAT_RGB565\<rparr>
       \<lparr>lsr_x = 1, lsr_y = 1, lsr_pixel_count = 7\<rparr> (replicate MAX_LABELS 7) =
   find_light_source \<lparr>fb_buf = [0], fb_width = 1, fb_height = 1, fb_format = PIXFORMAT_RGB565\<rparr>
       \<lparr>lsr_x = 0, lsr_y = 0, lsr_pixel_count = 0\<rparr> [0..<MAX_LABELS]"
  using find_light_source_pure [of "replicate MAX_LABELS 7" "[0..<MAX_LABELS]"
      "\<lparr>fb_buf = [0], fb_width = 1, fb_height = 1, fb_format = PIXFORMAT_RGB565\<rparr>"
      "\<lparr>lsr_x = 1, lsr_y = 1, lsr_pixel_count = 7\<rparr>"
      "\<lparr>lsr_x = 0, lsr_y = 0, lsr_pixel_count = 0\<rparr>"]
  by simp

section \<open>The first pass\<close>

lemma first_pass_flat:
  "first_pass w h s = for_each [0..<w * h] (\<lambda>k. label_px w (k div w) (k mod w)) s"
  unfolding first_pass_def by (rule raster_flat)

lemma second_pass_flat:
  "second_pass w h s = for_each [0..<w * h] (\<lambda>k. measure_px w (k div w) (k mod w)) s"
  unfolding second_pass_def by (rule raster_flat)

lemma label_px_flat:
  assumes "k < length px" "0 < w"
  shows "label_px w (k div w) (k mod w) (px, par, nl) =
    (if px ! k = 0xFFFF then
       (let top = (if w \<le> k then px ! (k - w) else 0);
            left = (if 0 < k mod w then px ! (k - 1) else 0) in
        if top = 0 \<and> left = 0 then
          (if nl < MAX_LABELS then Some (px[k := word_of_nat nl], par, nl + 1)
           else Some (px[k := 0], par, nl))
        else if left = 0 then Some (px[k := top], par, nl)
        else if top = 0 then Some (px[k := left], par, nl)
        else if top = left then Some (px[k := top], par, nl)
        else map_option (\<lambda>par'. (px[k := min top left], par', nl))
               (dsu_unite par (unat top) (unat left)))
     else Some (px, par, nl))"
proof -
  have y: "0 < k div w \<longleftrightarrow> w \<le> k" using assms(2) by (simp add: div_greater_zero_iff)
  have kw: "k - w < length px" "k - 1 < length px" using assms(1) by simp_all
  show ?thesis
    unfolding label_px_def
    by (cases "dsu_unite par (unat (if w \<le> k then px ! (k - w) else 0))
                 (unat (if 0 < k mod w then px ! (k - 1) else 0))")
       (use assms kw in \<open>auto simp: y array_get_def array_set_def Let_def word_gt_0 min_def\<close>)
qed


lemma pass1_inv_update:
  assumes "pass1_inv n k (px, par, nl)" "k < n" "unat v < nl'" "nl \<le> nl'" "nl' \<le> MAX_LABELS"
    "forest par'" "pos_roots par'" "length par' = MAX_LABELS"
  shows "pass1_inv n (Suc k) (px[k := v], par', nl')"
  using assms unfolding pass1_inv_def
  by (auto simp: nth_list_update less_Suc_eq)

lemma pass1_inv_skip:
  assumes "pass1_inv n k (px, par, nl)" "k < n" "px ! k \<noteq> 0xFFFF"
  shows "pass1_inv n (Suc k) (px, par, nl)"
proof -
  have "px ! k = 0" using assms unfolding pass1_inv_def by auto
  then show ?thesis using assms unfolding pass1_inv_def
    by (auto simp: less_Suc_eq)
qed

lemma unat_label: "nl < MAX_LABELS \<Longrightarrow> unat (word_of_nat nl :: 16 word) = nl"
  by (simp add: MAX_LABELS_def unat_of_nat)

lemma label_px_step:
  assumes inv: "pass1_inv n k s" and k: "k < n" and w: "0 < w"
  shows "\<exists>s'. label_px w (k div w) (k mod w) s = Some s' \<and> pass1_inv n (Suc k) s'"
proof -
  obtain px par nl where s: "s = (px, par, nl)" by (cases s)
  note inv' = inv [unfolded s]
  have len: "length px = n" and f: "forest par" and lp: "length par = MAX_LABELS"
    and pr: "pos_roots par"
    and nl: "1 \<le> nl" "nl \<le> MAX_LABELS"
    and proc: "\<And>i. i < k \<Longrightarrow> unat (px ! i) < nl"
    using inv' unfolding pass1_inv_def by auto
  define top where "top = (if w \<le> k then px ! (k - w) else 0)"
  define left where "left = (if 0 < k mod w then px ! (k - 1) else 0)"
  have kpos: "0 < k" if "0 < k mod w" using that by (cases k) auto
  have top: "unat top < nl" using proc [of "k - w"] nl w k by (auto simp: top_def)
  have left: "unat left < nl" using proc [of "k - 1"] nl kpos by (auto simp: left_def)
  have flat: "label_px w (k div w) (k mod w) (px, par, nl) =
    (if px ! k = 0xFFFF then
        (if top = 0 \<and> left = 0 then
          (if nl < MAX_LABELS then Some (px[k := word_of_nat nl], par, nl + 1)
           else Some (px[k := 0], par, nl))
        else if left = 0 then Some (px[k := top], par, nl)
        else if top = 0 then Some (px[k := left], par, nl)
        else if top = left then Some (px[k := top], par, nl)
        else map_option (\<lambda>par'. (px[k := min top left], par', nl))
               (dsu_unite par (unat top) (unat left)))
     else Some (px, par, nl))"
    using label_px_flat [of k px w par nl] k len w by (simp add: top_def left_def Let_def)
  show ?thesis
  proof (cases "px ! k = 0xFFFF")
    case False
    then show ?thesis using flat s pass1_inv_skip [OF inv' k] by simp
  next
    case True
    consider (fresh) "top = 0" "left = 0" "nl < MAX_LABELS"
      | (full) "top = 0" "left = 0" "\<not> nl < MAX_LABELS"
      | (up) "top \<noteq> 0" "left = 0"
      | (lft) "top = 0" "left \<noteq> 0"
      | (same) "top \<noteq> 0" "left \<noteq> 0" "top = left"
      | (diff) "top \<noteq> 0" "left \<noteq> 0" "top \<noteq> left"
      by blast
    then show ?thesis
    proof cases
      case fresh
      have "pass1_inv n (Suc k) (px[k := word_of_nat nl], par, nl + 1)"
        using inv' k _ _ _ f pr lp by (rule pass1_inv_update) (use fresh in \<open>simp_all add: unat_label\<close>)
      then show ?thesis using flat True fresh s by simp
    next
      case full
      have "pass1_inv n (Suc k) (px[k := 0], par, nl)"
        using inv' k _ _ _ f pr lp by (rule pass1_inv_update) (use nl in simp_all)
      then show ?thesis using flat True full s by simp
    next
      case up
      have "pass1_inv n (Suc k) (px[k := top], par, nl)"
        using inv' k top _ _ f pr lp by (rule pass1_inv_update) (use nl in simp_all)
      then show ?thesis using flat True up s by simp
    next
      case lft
      have "pass1_inv n (Suc k) (px[k := left], par, nl)"
        using inv' k left _ _ f pr lp by (rule pass1_inv_update) (use nl in simp_all)
      then show ?thesis using flat True lft s by simp
    next
      case same
      have "pass1_inv n (Suc k) (px[k := top], par, nl)"
        using inv' k top _ _ f pr lp by (rule pass1_inv_update) (use nl in simp_all)
      then show ?thesis using flat True same s by simp
    next
      case diff
      have tl: "unat top < length par" "unat left < length par" using top left nl lp by simp_all
      from dsu_unite_spec [OF f tl] obtain par' where
        par': "dsu_unite par (unat top) (unat left) = Some par'" "length par' = length par"
          "forest par'"
          "\<forall>j<length par. root_of par' j =
              (if root_of par j = max (root_of par (unat top)) (root_of par (unat left))
               then min (root_of par (unat top)) (root_of par (unat left)) else root_of par j)"
        by blast
      have "0 < unat top" "0 < unat left" using diff by (simp_all add: unat_gt_0)
      then have "0 < root_of par (unat top)" "0 < root_of par (unat left)"
        using pr tl by (simp_all add: pos_roots_def)
      then have pr': "pos_roots par'"
        using pr par'(2,4) by (auto simp: pos_roots_def min_def)
      have m: "unat (min top left) < nl" using top left by (simp add: min_def)
      have "pass1_inv n (Suc k) (px[k := min top left], par', nl)"
        using inv' k m _ _ par'(3) pr' by (rule pass1_inv_update) (use nl lp par'(2) in simp_all)
      then show ?thesis using flat True diff s par'(1) by simp
    qed
  qed
qed

lemma first_pass_inv:
  assumes "pass1_inv (w * h) 0 s"
  shows "\<exists>s'. first_pass w h s = Some s' \<and> pass1_inv (w * h) (w * h) s'"
  unfolding first_pass_flat
proof (rule for_each_upt_inv [where I = "pass1_inv (w * h)"])
  show "pass1_inv (w * h) 0 s" by (rule assms)
  show "0 \<le> w * h" by simp
next
  fix k s assume k: "k < w * h" and inv: "pass1_inv (w * h) k s"
  have "0 < w" using k by (cases w) auto
  with inv k show "\<exists>s'. label_px w (k div w) (k mod w) s = Some s' \<and> pass1_inv (w * h) (Suc k) s'"
    by (rule label_px_step)
qed

section \<open>The second pass\<close>

lemma measure_px_flat:
  assumes k: "k < length px" and w: "0 < w" and f: "forest par"
    and lab: "unat (px ! k) < length par" and lb: "length par \<le> length blobs"
  shows "\<exists>par'. length par' = length par \<and> forest par' \<and>
           (\<forall>j<length par. root_of par' j = root_of par j) \<and>
           measure_px w (k div w) (k mod w) (px, par, blobs) =
             (if px ! k \<noteq> 0 then
                (let r = root_of par (unat (px ! k)) in
                 Some (px[k := word_of_nat r], par',
                       blobs[r := blob_add r (k mod w) (k div w) (blobs ! r)]))
              else Some (px, par, blobs))"
proof (cases "px ! k = 0")
  case True
  then show ?thesis using k f by (auto simp: measure_px_def array_get_def intro!: exI [of _ par])
next
  case False
  let ?r = "root_of par (unat (px ! k))"
  from dsu_find_spec [OF f lab] obtain par' where
    p: "dsu_find par (unat (px ! k)) = Some (par', ?r)" "length par' = length par"
       "\<forall>j<length par. par' ! j = par ! j \<or> par' ! j = root_of par j" by blast
  have f': "forest par'" using f p(2,3) by (rule forest_compress)
  have r': "\<forall>j<length par. root_of par' j = root_of par j"
    using root_of_compress [OF f p(2,3)] by blast
  have "?r \<le> unat (px ! k)" by (rule root_of_le)
  then have rb: "?r < length blobs" using lab lb by simp
  have "measure_px w (k div w) (k mod w) (px, par, blobs) =
          Some (px[k := word_of_nat ?r], par', blobs[?r := blob_add ?r (k mod w) (k div w) (blobs ! ?r)])"
    using False k p(1) rb
    by (simp add: measure_px_def array_get_def array_set_def word_gt_0)
  then show ?thesis using False p(2) f' r' by (auto simp: Let_def)
qed

lemma unat_add_le: "unat (a + word_of_nat x :: 32 word) \<le> unat a + x"
proof -
  have "unat (a + word_of_nat x :: 32 word) \<le> unat a + unat (word_of_nat x :: 32 word)"
    by (simp add: unat_word_ariths)
  also have "\<dots> \<le> unat a + x" by (simp add: unat_of_nat)
  finally show ?thesis .
qed

lemma blob_ok_add:
  assumes "blob_ok w h k l b" "k < w * h" "0 < l"
  shows "blob_ok w h (Suc k) l (blob_add l (k mod w) (k div w) b)"
proof -
  have w: "0 < w" and h: "0 < h" using assms(2) by (cases w; cases h; simp)+
  have x: "k mod w \<le> w - 1" using w by (simp add: less_Suc_eq_le [symmetric])
  have "k div w < h" using assms(2) w by (simp add: less_mult_imp_div_less mult.commute)
  then have y: "k div w \<le> h - 1" by simp
  have c: "0 \<le> pixel_count b" and sx: "unat (sum_x b) \<le> nat (pixel_count b) * (w - 1)"
    and sy: "unat (sum_y b) \<le> nat (pixel_count b) * (h - 1)"
    using assms(1) by (simp_all add: blob_ok_def)
  have n: "nat (pixel_count b + 1) = Suc (nat (pixel_count b))" using c by simp
  have "unat (sum_x b + word_of_nat (k mod w)) \<le> nat (pixel_count b + 1) * (w - 1)"
    using unat_add_le [of "sum_x b" "k mod w"] sx x unfolding n by simp
  moreover have "unat (sum_y b + word_of_nat (k div w)) \<le> nat (pixel_count b + 1) * (h - 1)"
    using unat_add_le [of "sum_y b" "k div w"] sy y unfolding n by simp
  ultimately show ?thesis using assms(1,3) by (auto simp: blob_ok_def blob_add_def)
qed

lemma blob_ok_mono: "blob_ok w h k l b \<Longrightarrow> blob_ok w h (Suc k) l b"
  by (auto simp: blob_ok_def)

lemma measure_px_step:
  assumes inv: "pass2_inv w h nl k s" and k: "k < w * h"
  shows "\<exists>s'. measure_px w (k div w) (k mod w) s = Some s' \<and> pass2_inv w h nl (Suc k) s'"
proof -
  obtain px par blobs where s: "s = (px, par, blobs)" by (cases s) auto
  have len: "length px = w * h" and f: "forest par" and lp: "length par = MAX_LABELS"
    and lb: "length blobs = MAX_LABELS" and pr: "pos_roots par"
    and nl: "1 \<le> nl" "nl \<le> MAX_LABELS"
    and labs: "\<And>i. i < w * h \<Longrightarrow> unat (px ! i) < nl"
    and ok: "\<And>l. l < MAX_LABELS \<Longrightarrow> blob_ok w h k l (blobs ! l)"
    and zero: "\<And>l. l < MAX_LABELS \<Longrightarrow> l = 0 \<or> nl \<le> l \<Longrightarrow> blobs ! l = blob_zero"
    using inv unfolding s pass2_inv_def by auto
  have w: "0 < w" using k by (cases w) auto
  let ?r = "root_of par (unat (px ! k))"
  have kl: "k < length px" using k len by simp
  have lab: "unat (px ! k) < length par" using labs [OF k] lp nl by simp
  from measure_px_flat [OF kl w f lab, of blobs] lb lp obtain par' where
    p: "length par' = length par" "forest par'"
       "\<forall>j<length par. root_of par' j = root_of par j"
       "measure_px w (k div w) (k mod w) (px, par, blobs) =
             (if px ! k \<noteq> 0 then
                 Some (px[k := word_of_nat ?r], par',
                       blobs[?r := blob_add ?r (k mod w) (k div w) (blobs ! ?r)])
              else Some (px, par, blobs))"
    by (auto simp: Let_def)
  show ?thesis
  proof (cases "px ! k = 0")
    case True
    have "pass2_inv w h nl (Suc k) (px, par, blobs)"
      using inv unfolding s pass2_inv_def by (auto intro: blob_ok_mono)
    then show ?thesis using p(4) True s by simp
  next
    case False
    have rn: "?r < nl" using root_of_le [of par "unat (px ! k)"] labs [OF k] by simp
    then have rl: "?r < MAX_LABELS" using nl by simp
    have "0 < unat (px ! k)" using False by (simp add: unat_gt_0)
    then have r0: "0 < ?r" using pr lab by (simp add: pos_roots_def)
    have pr': "pos_roots par'" using pr p(1,3) by (simp add: pos_roots_def)
    have ur: "unat (word_of_nat ?r :: 16 word) = ?r" using rl by (rule unat_label)
    have "pass2_inv w h nl (Suc k)
            (px[k := word_of_nat ?r], par', blobs[?r := blob_add ?r (k mod w) (k div w) (blobs ! ?r)])"
      unfolding pass2_inv_def
    proof (simp only: prod.case, intro conjI allI impI)
      show "length (px[k := word_of_nat ?r]) = w * h" using len by simp
      show "forest par'" by (rule p(2))
      show "pos_roots par'" by (rule pr')
      show "1 \<le> nl" "nl \<le> MAX_LABELS" by (rule nl)+
      show "length par' = MAX_LABELS" using p(1) lp by simp
      show "length (blobs[?r := blob_add ?r (k mod w) (k div w) (blobs ! ?r)]) = MAX_LABELS"
        using lb by simp
    next
      fix i assume "i < w * h"
      then show "unat (px[k := word_of_nat ?r] ! i) < nl"
        using labs [of i] ur rn len by (cases "i = k") simp_all
    next
      fix l assume "l < MAX_LABELS" "l = 0 \<or> nl \<le> l"
      then show "blobs[?r := blob_add ?r (k mod w) (k div w) (blobs ! ?r)] ! l = blob_zero"
        using zero [of l] r0 rn by auto
    next
      fix l assume l: "l < MAX_LABELS"
      show "blob_ok w h (Suc k) l (blobs[?r := blob_add ?r (k mod w) (k div w) (blobs ! ?r)] ! l)"
      proof (cases "l = ?r")
        case True
        then show ?thesis using blob_ok_add [OF ok [OF l] k] r0 l lb by simp
      next
        case False
        then show ?thesis using blob_ok_mono [OF ok [OF l]] by simp
      qed
    qed
    then show ?thesis using p(4) False s by simp
  qed
qed

lemma second_pass_inv:
  assumes "pass2_inv w h nl 0 s"
  shows "\<exists>s'. second_pass w h s = Some s' \<and> pass2_inv w h nl (w * h) s'"
  unfolding second_pass_flat
proof (rule for_each_upt_inv [where I = "pass2_inv w h nl"])
  show "pass2_inv w h nl 0 s" by (rule assms)
  show "0 \<le> w * h" by simp
next
  fix k s assume "k < w * h" "pass2_inv w h nl k s"
  then show "\<exists>s'. measure_px w (k div w) (k mod w) s = Some s' \<and> pass2_inv w h nl (Suc k) s'"
    by (rule measure_px_step [rotated])
qed

section \<open>Selection and result\<close>

lemma centroid_eq:
  assumes c: "0 < c" "c < 2 ^ 31" and q: "unat s div nat c < 2 ^ 31"
  shows "centroid s c = Some (int (unat s div nat c))"
proof -
  have wc: "(word_of_int c :: 32 word) = word_of_nat (nat c)"
    by (rule word_of_int_nat) (use c(1) in simp)
  have "nat c < 2 ^ 32" using c by simp
  then have uc: "unat (word_of_nat (nat c) :: 32 word) = nat c"
    by (simp add: unat_of_nat)
  have nz: "(word_of_nat (nat c) :: 32 word) \<noteq> 0"
  proof
    assume "(word_of_nat (nat c) :: 32 word) = 0"
    then have "unat (word_of_nat (nat c) :: 32 word) = 0" by simp
    then show False using uc c(1) by simp
  qed
  let ?q = "s div word_of_nat (nat c)"
  have uq: "unat ?q = unat s div nat c" by (simp add: unat_div uc)
  have "uint ?q = int (unat s div nat c)" using uq by (simp add: uint_nat)
  moreover have "sint ?q = signed_take_bit 31 (uint ?q)" by (simp add: sint_uint)
  moreover have "signed_take_bit 31 (int (unat s div nat c)) = int (unat s div nat c)"
    using q by (intro signed_take_bit_int_eq_self) auto
  ultimately have "sint ?q = int (unat s div nat c)" by simp
  then show ?thesis unfolding centroid_def wc using nz by (simp del: of_nat_nat)
qed

lemma binarize_px_binary: "binarize_px p = 0 \<or> binarize_px p = 0xFFFF"
  by (simp add: binarize_px_def Let_def)

lemma label_frame_safe:
  assumes ok: "frame_ok fb" and len: "length parent = MAX_LABELS"
  shows "\<exists>s. label_frame fb parent = Some s \<and>
           pass1_inv (fb_width fb * fb_height fb) (fb_width fb * fb_height fb) s"
proof -
  let ?w = "fb_width fb" and ?h = "fb_height fb"
  have l: "length (fb_buf fb) = ?w * ?h" using ok by (simp add: frame_ok_def)
  have b: "binarize ?w ?h (fb_buf fb) = Some (map binarize_px (fb_buf fb))"
    using l by (rule binarize_map)
  have i: "dsu_init parent = Some [0..<MAX_LABELS]" using len by (rule dsu_init_spec)
  have "pass1_inv (?w * ?h) 0 (map binarize_px (fb_buf fb), [0..<MAX_LABELS], 1)"
    using l binarize_px_binary
    by (auto simp: pass1_inv_def forest_init pos_roots_def root_of_init MAX_LABELS_def)
  from first_pass_inv [OF this] show ?thesis
    using b i by (simp add: label_frame_def)
qed

lemma blob_ok_zero: "blob_ok w h 0 l blob_zero"
  by (simp add: blob_ok_def blob_zero_def)

lemma scan_frame_safe:
  assumes ok: "frame_ok fb" and len: "length parent = MAX_LABELS"
  shows "\<exists>px1 par1 nl px par blobs.
           label_frame fb parent = Some (px1, par1, nl) \<and>
           pass1_inv (fb_width fb * fb_height fb) (fb_width fb * fb_height fb) (px1, par1, nl) \<and>
           scan_frame fb parent = Some (px, par, nl, blobs) \<and>
           pass2_inv (fb_width fb) (fb_height fb) nl (fb_width fb * fb_height fb) (px, par, blobs)"
proof -
  let ?w = "fb_width fb" and ?h = "fb_height fb"
  from label_frame_safe [OF ok len] obtain px1 par1 nl where
    s1: "label_frame fb parent = Some (px1, par1, nl)"
        "pass1_inv (?w * ?h) (?w * ?h) (px1, par1, nl)" by auto
  have "pass2_inv ?w ?h nl 0 (px1, par1, replicate MAX_LABELS blob_zero)"
    using s1(2) unfolding pass1_inv_def pass2_inv_def
    by (auto simp: blob_ok_zero)
  from second_pass_inv [OF this] obtain px par blobs where
    s2: "second_pass ?w ?h (px1, par1, replicate MAX_LABELS blob_zero) = Some (px, par, blobs)"
        "pass2_inv ?w ?h nl (?w * ?h) (px, par, blobs)" by auto
  have "scan_frame fb parent = Some (px, par, nl, blobs)"
    using s1(1) s2(1) by (simp add: scan_frame_def)
  then show ?thesis using s1 s2(2) by blast
qed

lemma select_px_eq:
  assumes "i < length blobs"
  shows "select_px blobs i (best, maxc) =
           Some (if accepted (blobs ! i) \<and> pixel_count (blobs ! i) > maxc
                 then (int i, pixel_count (blobs ! i)) else (best, maxc))"
  using assms by (simp add: select_px_def array_get_def accepted_def)

lemma select_best_spec:
  assumes nl: "next_label \<le> length blobs"
  shows "\<exists>best maxc. select_best blobs next_label = Some (best, maxc) \<and>
           (if \<forall>i. 1 \<le> i \<and> i < next_label \<longrightarrow> \<not> accepted (blobs ! i) then best = -1 \<and> maxc = 0
            else 1 \<le> best \<and> best < int next_label \<and> accepted (blobs ! nat best) \<and>
                 maxc = pixel_count (blobs ! nat best) \<and>
                 (\<forall>i. 1 \<le> i \<and> i < next_label \<and> accepted (blobs ! i) \<longrightarrow>
                    pixel_count (blobs ! i) < pixel_count (blobs ! nat best) \<or>
                    pixel_count (blobs ! i) = pixel_count (blobs ! nat best) \<and> nat best \<le> i))"
proof (cases "1 \<le> next_label")
  case False
  then have "next_label = 0" by simp
  then show ?thesis by (simp add: select_best_def)
next
  case True
  define I where "I = (\<lambda>k (s :: int \<times> int). case s of (best, maxc) \<Rightarrow>
     (if \<forall>i. 1 \<le> i \<and> i < k \<longrightarrow> \<not> accepted (blobs ! i) then best = -1 \<and> maxc = 0
      else 1 \<le> best \<and> best < int k \<and> accepted (blobs ! nat best) \<and>
           maxc = pixel_count (blobs ! nat best) \<and>
           (\<forall>i. 1 \<le> i \<and> i < k \<and> accepted (blobs ! i) \<longrightarrow>
              pixel_count (blobs ! i) < pixel_count (blobs ! nat best) \<or>
              pixel_count (blobs ! i) = pixel_count (blobs ! nat best) \<and> nat best \<le> i)))"
  have "\<exists>s'. for_each [1..<next_label] (select_px blobs) (-1, 0) = Some s' \<and> I next_label s'"
  proof (rule for_each_upt_inv [where I = "\<lambda>k s. 1 \<le> k \<and> I k s", THEN exE])
    show "1 \<le> (1::nat) \<and> I 1 (-1, 0)" by (simp add: I_def)
    show "1 \<le> next_label" by (rule True)
  next
    fix k s assume k: "k < next_label" and inv: "1 \<le> k \<and> I k s"
    obtain best maxc where s: "s = (best, maxc)" by (cases s)
    have kl: "k < length blobs" using k nl by simp
    let ?b = "blobs ! k"
    note step = select_px_eq [OF kl, of best maxc]
    have Ik: "I k (best, maxc)" and k1: "1 \<le> k" using inv s by simp_all
    have big: "accepted ?b \<Longrightarrow> 3 \<le> pixel_count ?b" by (simp add: accepted_def min_blob_size_def)
    have "I (Suc k) (if accepted ?b \<and> pixel_count ?b > maxc then (int k, pixel_count ?b) else (best, maxc))"
    proof (cases "\<forall>i. 1 \<le> i \<and> i < k \<longrightarrow> \<not> accepted (blobs ! i)")
      case none: True
      then have bm: "best = -1" "maxc = 0" using Ik by (simp_all add: I_def)
      show ?thesis
      proof (cases "accepted ?b")
        case True
        then have "pixel_count ?b > maxc" using big bm by simp
        moreover have "\<not> (\<forall>i. 1 \<le> i \<and> i < Suc k \<longrightarrow> \<not> accepted (blobs ! i))"
          using True k1 by auto
        ultimately show ?thesis using True none k1 unfolding I_def
          by (auto simp: less_Suc_eq)
      next
        case False
        then have "\<forall>i. 1 \<le> i \<and> i < Suc k \<longrightarrow> \<not> accepted (blobs ! i)"
          using none by (auto simp: less_Suc_eq)
        then show ?thesis using False bm unfolding I_def by simp
      qed
    next
      case some: False
      then have some': "\<not> (\<forall>i. 1 \<le> i \<and> i < Suc k \<longrightarrow> \<not> accepted (blobs ! i))"
        by (auto simp: less_Suc_eq)
      have old: "1 \<le> best" "best < int k" "accepted (blobs ! nat best)"
        "maxc = pixel_count (blobs ! nat best)"
        "\<And>i. 1 \<le> i \<Longrightarrow> i < k \<Longrightarrow> accepted (blobs ! i) \<Longrightarrow>
              pixel_count (blobs ! i) < pixel_count (blobs ! nat best) \<or>
              pixel_count (blobs ! i) = pixel_count (blobs ! nat best) \<and> nat best \<le> i"
        using Ik some unfolding I_def by auto
      show ?thesis
      proof (cases "accepted ?b \<and> pixel_count ?b > maxc")
        case True
        have "pixel_count (blobs ! i) < pixel_count ?b \<or>
              pixel_count (blobs ! i) = pixel_count ?b \<and> k \<le> i"
          if "1 \<le> i" "i < Suc k" "accepted (blobs ! i)" for i
        proof (cases "i = k")
          case True
          then show ?thesis by simp
        next
          case False
          then have "i < k" using that by simp
          from old(5) [OF that(1) this that(3)] True old(4) show ?thesis by auto
        qed
        then show ?thesis using True some' k1 unfolding I_def by auto
      next
        case False
        have "pixel_count (blobs ! i) < pixel_count (blobs ! nat best) \<or>
              pixel_count (blobs ! i) = pixel_count (blobs ! nat best) \<and> nat best \<le> i"
          if "1 \<le> i" "i < Suc k" "accepted (blobs ! i)" for i
        proof (cases "i = k")
          case True
          then show ?thesis using False that old(2,4) by auto
        next
          case F: False
          then have "i < k" using that by simp
          from old(5) [OF that(1) this that(3)] show ?thesis .
        qed
        then show ?thesis using False some' old unfolding I_def by auto
      qed
    qed
    then show "\<exists>s'. select_px blobs k s = Some s' \<and> (1 \<le> Suc k \<and> I (Suc k) s')"
      using step s by simp
  qed auto
  then obtain best maxc where
    "select_best blobs next_label = Some (best, maxc)" "I next_label (best, maxc)"
    unfolding select_best_def by auto
  then show ?thesis unfolding I_def by auto
qed



lemma binarize_px_white: "binarize_px 0xFFFF = 0xFFFF"
  by (simp add: binarize_px_def)

lemma binarize_px_black: "binarize_px 0 = 0"
  by (simp add: binarize_px_def)



lemma not_accepted_zero: "\<not> accepted blob_zero"
  by (simp add: accepted_def blob_zero_def)

lemma find_light_source_spec:
  assumes ok: "frame_ok fb" and fmt: "fb_format fb = PIXFORMAT_RGB565"
    and len: "length parent = MAX_LABELS"
  shows "\<exists>px par nl blobs best maxc.
           scan_frame fb parent = Some (px, par, nl, blobs) \<and>
           select_best blobs nl = Some (best, maxc) \<and>
           pass2_inv (fb_width fb) (fb_height fb) nl (fb_width fb * fb_height fb) (px, par, blobs) \<and>
           (if \<forall>i<MAX_LABELS. \<not> accepted (blobs ! i) then best = -1
            else 1 \<le> best \<and> best < int nl \<and> accepted (blobs ! nat best) \<and>
                 (\<forall>i<MAX_LABELS. accepted (blobs ! i) \<longrightarrow>
                    pixel_count (blobs ! i) < pixel_count (blobs ! nat best) \<or>
                    pixel_count (blobs ! i) = pixel_count (blobs ! nat best) \<and> nat best \<le> i)) \<and>
           find_light_source fb result parent =
             Some (if best = -1
                   then (-1, \<lparr>lsr_x = 0, lsr_y = 0, lsr_pixel_count = 0\<rparr>, px, par)
                   else (0, \<lparr>lsr_x = normalize_coord
                                 (int (unat (sum_x (blobs ! nat best)) div
                                       nat (pixel_count (blobs ! nat best)))) (fb_width fb),
                              lsr_y = normalize_coord
                                 (int (unat (sum_y (blobs ! nat best)) div
                                       nat (pixel_count (blobs ! nat best)))) (fb_height fb),
                              lsr_pixel_count = pixel_count (blobs ! nat best)\<rparr>, px, par)) \<and>
           (best \<noteq> -1 \<longrightarrow>
              unat (sum_x (blobs ! nat best)) div nat (pixel_count (blobs ! nat best)) < fb_width fb \<and>
              unat (sum_y (blobs ! nat best)) div nat (pixel_count (blobs ! nat best)) < fb_height fb)"
proof -
  let ?w = "fb_width fb" and ?h = "fb_height fb"
  from scan_frame_safe [OF ok len] obtain px par nl blobs where
    sc: "scan_frame fb parent = Some (px, par, nl, blobs)"
    and inv: "pass2_inv ?w ?h nl (?w * ?h) (px, par, blobs)" by blast
  have lb: "length blobs = MAX_LABELS" and nl: "1 \<le> nl" "nl \<le> MAX_LABELS"
    and bok: "\<And>l. l < MAX_LABELS \<Longrightarrow> blob_ok ?w ?h (?w * ?h) l (blobs ! l)"
    and zero: "\<And>l. l < MAX_LABELS \<Longrightarrow> l = 0 \<or> nl \<le> l \<Longrightarrow> blobs ! l = blob_zero"
    using inv unfolding pass2_inv_def by auto
  have range: "1 \<le> i \<and> i < nl" if "i < MAX_LABELS" "accepted (blobs ! i)" for i
  proof (rule ccontr)
    assume "\<not> (1 \<le> i \<and> i < nl)"
    then have "i = 0 \<or> nl \<le> i" by auto
    from zero [OF that(1) this] that(2) show False by (simp add: not_accepted_zero)
  qed
  have nlb: "nl \<le> length blobs" using nl lb by simp
  from select_best_spec [OF nlb] obtain best maxc where
    sel: "select_best blobs nl = Some (best, maxc)"
    and sp: "if \<forall>i. 1 \<le> i \<and> i < nl \<longrightarrow> \<not> accepted (blobs ! i) then best = -1 \<and> maxc = 0
            else 1 \<le> best \<and> best < int nl \<and> accepted (blobs ! nat best) \<and>
                 maxc = pixel_count (blobs ! nat best) \<and>
                 (\<forall>i. 1 \<le> i \<and> i < nl \<and> accepted (blobs ! i) \<longrightarrow>
                    pixel_count (blobs ! i) < pixel_count (blobs ! nat best) \<or>
                    pixel_count (blobs ! i) = pixel_count (blobs ! nat best) \<and> nat best \<le> i)"
    by blast
  have all_iff: "(\<forall>i<MAX_LABELS. \<not> accepted (blobs ! i)) \<longleftrightarrow>
                 (\<forall>i. 1 \<le> i \<and> i < nl \<longrightarrow> \<not> accepted (blobs ! i))"
    using range nl by (meson less_le_trans)
  have choice: "if \<forall>i<MAX_LABELS. \<not> accepted (blobs ! i) then best = -1
            else 1 \<le> best \<and> best < int nl \<and> accepted (blobs ! nat best) \<and>
                 (\<forall>i<MAX_LABELS. accepted (blobs ! i) \<longrightarrow>
                    pixel_count (blobs ! i) < pixel_count (blobs ! nat best) \<or>
                    pixel_count (blobs ! i) = pixel_count (blobs ! nat best) \<and> nat best \<le> i)"
  proof (cases "\<forall>i<MAX_LABELS. \<not> accepted (blobs ! i)")
    case True
    then show ?thesis using sp all_iff by simp
  next
    case False
    then have "\<not> (\<forall>i. 1 \<le> i \<and> i < nl \<longrightarrow> \<not> accepted (blobs ! i))" using all_iff by simp
    then show ?thesis using sp False range by auto
  qed
  show ?thesis
  proof (cases "best = -1")
    case True
    then have "find_light_source fb result parent =
                 Some (-1, \<lparr>lsr_x = 0, lsr_y = 0, lsr_pixel_count = 0\<rparr>, px, par)"
      using fmt sc sel by (simp add: find_light_source_def)
    moreover have "\<forall>i<MAX_LABELS. \<not> accepted (blobs ! i)"
      using choice True by (auto split: if_splits)
    ultimately show ?thesis using sc sel inv True by auto
  next
    case False
    then have b: "1 \<le> best" "best < int nl" "accepted (blobs ! nat best)"
      using choice by (auto split: if_splits)
    let ?b = "blobs ! nat best"
    have bl: "nat best < MAX_LABELS" using b(2) nl by simp
    have cnt: "3 \<le> pixel_count ?b" using b(3) by (simp add: accepted_def min_blob_size_def)
    from bok [OF bl] have
      c_le: "pixel_count ?b \<le> int (?w * ?h)"
      and sx: "unat (sum_x ?b) \<le> nat (pixel_count ?b) * (?w - 1)"
      and sy: "unat (sum_y ?b) \<le> nat (pixel_count ?b) * (?h - 1)"
      by (simp_all add: blob_ok_def)
    have big: "?w * ?h < 2 ^ 31" using ok by (simp add: frame_ok_def)
    have pos: "0 < ?w * ?h" using cnt c_le by linarith
    then have w: "0 < ?w" and h: "0 < ?h" by simp_all
    have N: "0 < nat (pixel_count ?b)" using cnt by simp
    have "unat (sum_x ?b) div nat (pixel_count ?b) \<le> ?w - 1"
      using sx N by (metis div_le_mono nonzero_mult_div_cancel_left less_numeral_extra(3))
    then have qx: "unat (sum_x ?b) div nat (pixel_count ?b) < ?w" using w by simp
    have "unat (sum_y ?b) div nat (pixel_count ?b) \<le> ?h - 1"
      using sy N by (metis div_le_mono nonzero_mult_div_cancel_left less_numeral_extra(3))
    then have qy: "unat (sum_y ?b) div nat (pixel_count ?b) < ?h" using h by simp
    have "?w * 1 \<le> ?w * ?h" using h by (intro mult_le_mono2) simp
    then have wb: "?w < 2 ^ 31" using big by linarith
    have "1 * ?h \<le> ?w * ?h" using w by (intro mult_le_mono1) simp
    then have hb: "?h < 2 ^ 31" using big by linarith
    have c1: "0 < pixel_count ?b" using cnt by simp
    have "int (?w * ?h) < 2 ^ 31" using big by (metis of_nat_less_iff of_nat_numeral of_nat_power)
    then have c2: "pixel_count ?b < 2 ^ 31" using c_le by linarith
    have cx: "centroid (sum_x ?b) (pixel_count ?b) =
                Some (int (unat (sum_x ?b) div nat (pixel_count ?b)))"
      using c1 c2 by (rule centroid_eq) (use qx wb in simp)
    have cy: "centroid (sum_y ?b) (pixel_count ?b) =
                Some (int (unat (sum_y ?b) div nat (pixel_count ?b)))"
      using c1 c2 by (rule centroid_eq) (use qy hb in simp)
    have ag: "array_get blobs (nat best) = Some ?b" using bl lb by (simp add: array_get_def)
    have "find_light_source fb result parent =
            Some (0, \<lparr>lsr_x = normalize_coord
                                 (int (unat (sum_x ?b) div nat (pixel_count ?b))) ?w,
                      lsr_y = normalize_coord
                                 (int (unat (sum_y ?b) div nat (pixel_count ?b))) ?h,
                      lsr_pixel_count = pixel_count ?b\<rparr>, px, par)"
      using fmt sc sel False ag cx cy by (simp add: find_light_source_def)
    then show ?thesis using sc sel inv choice False qx qy by auto
  qed
qed












text \<open>
  Two blobs of the shape test: a line of 10 pixels (x = 0..9, y = 0) has circularity 0 and
  is rejected, a filled 4x4 block has circularity 1 and is accepted.
\<close>

lemma line_rejected:
  "\<not> accepted \<lparr>blob_id = 1, pixel_count = 10, sum_x = 45, sum_y = 0, sum_x2 = 285,
                     sum_y2 = 0, sum_xy = 0\<rparr>"
  by (simp add: accepted_def circularity_def min_circularity_def)

lemma block_accepted:
  "accepted \<lparr>blob_id = 1, pixel_count = 16, sum_x = 24, sum_y = 24, sum_x2 = 56,
                   sum_y2 = 56, sum_xy = 36\<rparr>"
  by (simp add: accepted_def circularity_def min_circularity_def min_blob_size_def)










lemma dsu_unite_joins:
  assumes f: "forest p" and i: "i < length p" and j: "j < length p"
  shows "\<exists>p'. dsu_unite p i j = Some p' \<and> root_of p' i = root_of p' j"
proof -
  from dsu_unite_spec [OF f i j] obtain p' where
    p': "dsu_unite p i j = Some p'"
        "\<forall>k<length p. root_of p' k =
              (if root_of p k = max (root_of p i) (root_of p j)
               then min (root_of p i) (root_of p j) else root_of p k)" by blast
  have "root_of p' i = min (root_of p i) (root_of p j)"
    using p'(2) i by (auto simp: max_def min_def)
  moreover have "root_of p' j = min (root_of p i) (root_of p j)"
    using p'(2) j by (auto simp: max_def min_def)
  ultimately show ?thesis using p'(1) by simp
qed

text \<open>
  Claim C4. The first pass at a foreground pixel \<open>(x, y)\<close>, with \<open>top_label\<close> the label of the
  pixel above (0 in row 0) and \<open>left_label\<close> that of the pixel to the left (0 in column 0):
  no labeled neighbour gives the counter's value and increments it, or gives 0 and leaves
  the counter when it has reached \<^verbatim>\<open>MAX_LABELS\<close>; exactly one labeled neighbour gives its
  label; two equal labels give that label; two different labels are united (they have the
  same root afterwards) and the pixel gets the smaller one.
\<close>

theorem label_px_rule:
  assumes x: "x < w" and i: "y * w + x < length pixels"
    and fg: "pixels ! (y * w + x) = 0xFFFF"
    and top: "top_label = (if 0 < y then pixels ! ((y - 1) * w + x) else 0)"
    and left: "left_label = (if 0 < x then pixels ! (y * w + (x - 1)) else 0)"
  shows
    "(top_label = 0 \<and> left_label = 0 \<and> next_label < MAX_LABELS \<longrightarrow>
        label_px w y x (pixels, parent, next_label) =
          Some (pixels[y * w + x := word_of_nat next_label], parent, next_label + 1)) \<and>
     (top_label = 0 \<and> left_label = 0 \<and> \<not> next_label < MAX_LABELS \<longrightarrow>
        label_px w y x (pixels, parent, next_label) =
          Some (pixels[y * w + x := 0], parent, next_label)) \<and>
     (top_label \<noteq> 0 \<and> left_label = 0 \<longrightarrow>
        label_px w y x (pixels, parent, next_label) =
          Some (pixels[y * w + x := top_label], parent, next_label)) \<and>
     (top_label = 0 \<and> left_label \<noteq> 0 \<longrightarrow>
        label_px w y x (pixels, parent, next_label) =
          Some (pixels[y * w + x := left_label], parent, next_label)) \<and>
     (top_label \<noteq> 0 \<and> left_label = top_label \<longrightarrow>
        label_px w y x (pixels, parent, next_label) =
          Some (pixels[y * w + x := top_label], parent, next_label)) \<and>
     (top_label \<noteq> 0 \<and> left_label \<noteq> 0 \<and> top_label \<noteq> left_label \<and>
      forest parent \<and> unat top_label < length parent \<and> unat left_label < length parent \<longrightarrow>
        (\<exists>parent'. dsu_unite parent (unat top_label) (unat left_label) = Some parent' \<and>
           root_of parent' (unat top_label) = root_of parent' (unat left_label) \<and>
           label_px w y x (pixels, parent, next_label) =
             Some (pixels[y * w + x := min top_label left_label], parent', next_label)))"
proof -
  let ?k = "y * w + x"
  have w: "0 < w" using x by simp
  have d: "?k div w = y" and m: "?k mod w = x" using x by simp_all
  have up: "(if w \<le> ?k then pixels ! (?k - w) else 0) = top_label"
  proof (cases y)
    case 0
    then show ?thesis using x top by simp
  next
    case (Suc y')
    then show ?thesis using top by (simp add: add.commute add.left_commute)
  qed
  have lf: "(if 0 < ?k mod w then pixels ! (?k - 1) else 0) = left_label"
    unfolding m using left by (cases x) simp_all
  note flat = label_px_flat [OF i w, of parent next_label, unfolded d m Let_def, unfolded up,
      unfolded lf [unfolded m]]
  have join: "\<exists>parent'. dsu_unite parent (unat top_label) (unat left_label) = Some parent' \<and>
           root_of parent' (unat top_label) = root_of parent' (unat left_label)"
    if "forest parent" "unat top_label < length parent" "unat left_label < length parent"
    using that by (rule dsu_unite_joins)
  show ?thesis
    using flat fg join by (auto simp: min_def)
qed

text \<open>
  The hypotheses of C4 hold for the second pixel of a row whose first pixel has label 1.
\<close>

theorem label_px_rule_witness:
  "(1::nat) < 2 \<and> 0 * 2 + 1 < length [1, 0xFFFF :: 16 word] \<and>
   [1, 0xFFFF :: 16 word] ! (0 * 2 + 1) = 0xFFFF \<and>
   label_px 2 0 1 ([1, 0xFFFF], [0..<MAX_LABELS], 2) = Some ([1, 1], [0..<MAX_LABELS], 2)"
  using label_px_rule [of 1 2 0 "[1, 0xFFFF]" 0 1 2 "[0..<MAX_LABELS]"]
  by simp

section \<open>Exact accumulators\<close>

lemma finite_blob_pixels: "finite (blob_pixels px k l)"
  by (simp add: blob_pixels_def)

lemma blob_pixels_skip:
  "unat (px ! k) \<noteq> l \<Longrightarrow> blob_pixels px (Suc k) l = blob_pixels px k l"
  by (auto simp: blob_pixels_def less_Suc_eq)

lemma blob_pixels_other:
  "k < length px \<Longrightarrow> unat v \<noteq> l \<Longrightarrow> blob_pixels (px[k := v]) (Suc k) l = blob_pixels px k l"
  by (auto simp: blob_pixels_def less_Suc_eq nth_list_update)

lemma blob_pixels_same:
  "k < length px \<Longrightarrow> unat v = l \<Longrightarrow>
     blob_pixels (px[k := v]) (Suc k) l = insert k (blob_pixels px k l)"
  by (auto simp: blob_pixels_def less_Suc_eq nth_list_update)

lemma acc_exact_step:
  fixes acc :: "32 word"
  assumes acc: "unat acc = sum f S" and fin: "finite S" and k: "k \<notin> S"
    and bound: "\<And>i. i \<in> insert k S \<Longrightarrow> f i \<le> B"
    and card: "card S \<le> k" and room: "Suc k * B < 2 ^ 32"
  shows "unat (acc + word_of_nat (f k)) = sum f (insert k S)"
proof -
  have "sum f S \<le> (\<Sum>i\<in>S. B)" by (intro sum_mono bound) simp
  also have "\<dots> = card S * B" by simp
  also have "\<dots> \<le> k * B" using card by (intro mult_le_mono1)
  finally have s: "sum f S \<le> k * B" .
  have fk: "f k \<le> B" by (rule bound) simp
  have tot: "sum f S + f k < 2 ^ 32" using s fk room by simp
  then have "f k < 2 ^ 32" by simp
  then have u: "unat (word_of_nat (f k) :: 32 word) = f k" by (simp add: unat_of_nat)
  have "unat acc + unat (word_of_nat (f k) :: 32 word) < 2 ^ LENGTH(32)"
    using tot acc u by simp
  then have "unat (acc + word_of_nat (f k)) = unat acc + unat (word_of_nat (f k) :: 32 word)"
    by (rule unat_add_lem [THEN iffD1])
  then show ?thesis using acc u fin k by simp
qed


lemma stats_of_add:
  assumes st: "stats_of w S b" and fin: "finite S" and sub: "S \<subseteq> {..<k}"
    and k: "k < w * h" and w: "w \<le> 160" and h: "h \<le> 120"
  shows "stats_of w (insert k S) (blob_add r (k mod w) (k div w) b)"
proof -
  have kS: "k \<notin> S" using sub by auto
  have "card S \<le> card {..<k}" using sub by (intro card_mono) simp_all
  then have card: "card S \<le> k" by simp
  have wpos: "0 < w" using k by (cases w) auto
  have "Suc k \<le> w * h" using k by simp
  also have "\<dots> \<le> 160 * 120" using w h by (intro mult_le_mono)
  finally have "Suc k * 25281 \<le> (160 * 120) * 25281" by (intro mult_le_mono1)
  then have room: "Suc k * 25281 < 2 ^ 32" by simp
  have xb: "i mod w \<le> 159" and yb: "i div w \<le> 119" if "i \<in> insert k S" for i
  proof -
    have "i < w * h" using that sub k by auto
    then have "i div w < h" using wpos by (simp add: less_mult_imp_div_less mult.commute)
    then show "i div w \<le> 119" using h by simp
    have "i mod w < w" using wpos by simp
    then show "i mod w \<le> 159" using w by simp
  qed
  have b1: "i mod w \<le> 25281" if "i \<in> insert k S" for i using xb [OF that] by simp
  have b2: "i div w \<le> 25281" if "i \<in> insert k S" for i using yb [OF that] by simp
  have b3: "(i mod w) * (i mod w) \<le> 25281" if "i \<in> insert k S" for i
    using mult_le_mono [OF xb [OF that] xb [OF that]] by simp
  have b4: "(i div w) * (i div w) \<le> 25281" if "i \<in> insert k S" for i
    using mult_le_mono [OF yb [OF that] yb [OF that]] by simp
  have b5: "(i mod w) * (i div w) \<le> 25281" if "i \<in> insert k S" for i
    using mult_le_mono [OF xb [OF that] yb [OF that]] by simp
  from st have c: "pixel_count b = int (card S)"
    and a1: "unat (sum_x b) = (\<Sum>i\<in>S. i mod w)"
    and a2: "unat (sum_y b) = (\<Sum>i\<in>S. i div w)"
    and a3: "unat (sum_x2 b) = (\<Sum>i\<in>S. (i mod w) * (i mod w))"
    and a4: "unat (sum_y2 b) = (\<Sum>i\<in>S. (i div w) * (i div w))"
    and a5: "unat (sum_xy b) = (\<Sum>i\<in>S. (i mod w) * (i div w))"
    by (simp_all add: stats_of_def)
  have "pixel_count b + 1 = int (card (insert k S))" using c fin kS by simp
  moreover have "unat (sum_x b + word_of_nat (k mod w)) = (\<Sum>i\<in>insert k S. i mod w)"
    using a1 fin kS b1 card room by (rule acc_exact_step)
  moreover have "unat (sum_y b + word_of_nat (k div w)) = (\<Sum>i\<in>insert k S. i div w)"
    using a2 fin kS b2 card room by (rule acc_exact_step)
  moreover have "unat (sum_x2 b + word_of_nat ((k mod w) * (k mod w))) =
                   (\<Sum>i\<in>insert k S. (i mod w) * (i mod w))"
    using a3 fin kS b3 card room by (rule acc_exact_step)
  moreover have "unat (sum_y2 b + word_of_nat ((k div w) * (k div w))) =
                   (\<Sum>i\<in>insert k S. (i div w) * (i div w))"
    using a4 fin kS b4 card room by (rule acc_exact_step)
  moreover have "unat (sum_xy b + word_of_nat ((k mod w) * (k div w))) =
                   (\<Sum>i\<in>insert k S. (i mod w) * (i div w))"
    using a5 fin kS b5 card room by (rule acc_exact_step)
  ultimately show ?thesis
    by (simp add: stats_of_def blob_add_def)
qed

lemma measure_px_exact_step:
  assumes inv: "pass2_inv w h nl k s" and ex: "pass2_exact w k s" and k: "k < w * h"
    and w: "w \<le> 160" and h: "h \<le> 120"
  shows "\<exists>s'. measure_px w (k div w) (k mod w) s = Some s' \<and>
              pass2_inv w h nl (Suc k) s' \<and> pass2_exact w (Suc k) s'"
proof -
  obtain px par blobs where s: "s = (px, par, blobs)" by (cases s) auto
  from measure_px_step [OF inv k] obtain s' where
    s': "measure_px w (k div w) (k mod w) s = Some s'" "pass2_inv w h nl (Suc k) s'" by blast
  have len: "length px = w * h" and f: "forest par" and lp: "length par = MAX_LABELS"
    and lb: "length blobs = MAX_LABELS" and nl: "nl \<le> MAX_LABELS"
    and labs: "\<And>i. i < w * h \<Longrightarrow> unat (px ! i) < nl"
    using inv unfolding s pass2_inv_def by auto
  have st: "\<And>l. 1 \<le> l \<Longrightarrow> l < MAX_LABELS \<Longrightarrow> stats_of w (blob_pixels px k l) (blobs ! l)"
    using ex unfolding s pass2_exact_def by auto
  have wpos: "0 < w" using k by (cases w) auto
  have kl: "k < length px" using k len by simp
  have lab: "unat (px ! k) < length par" using labs [OF k] lp nl by simp
  let ?r = "root_of par (unat (px ! k))"
  have "length par \<le> length blobs" using lb lp by simp
  from measure_px_flat [OF kl wpos f lab this, unfolded Let_def] obtain par' where
    p: "measure_px w (k div w) (k mod w) (px, par, blobs) =
             (if px ! k \<noteq> 0 then
                 Some (px[k := word_of_nat ?r], par',
                       blobs[?r := blob_add ?r (k mod w) (k div w) (blobs ! ?r)])
              else Some (px, par, blobs))"
    by blast
  have "pass2_exact w (Suc k) s'"
  proof (cases "px ! k = 0")
    case True
    then have eq: "s' = (px, par, blobs)" using p s' s by simp
    have "blob_pixels px (Suc k) l = blob_pixels px k l" if "1 \<le> l" for l
      using that True by (intro blob_pixels_skip) simp
    then show ?thesis using st unfolding eq pass2_exact_def by simp
  next
    case False
    then have eq: "s' = (px[k := word_of_nat ?r], par',
                       blobs[?r := blob_add ?r (k mod w) (k div w) (blobs ! ?r)])"
      using p s' s by simp
    have rl: "?r < MAX_LABELS" using root_of_le [of par "unat (px ! k)"] lab lp by simp
    have ur: "unat (word_of_nat ?r :: 16 word) = ?r" using rl by (rule unat_label)
    show ?thesis
      unfolding eq pass2_exact_def
    proof (simp only: prod.case, intro allI impI)
      fix l assume l: "1 \<le> l \<and> l < MAX_LABELS"
      show "stats_of w (blob_pixels (px[k := word_of_nat ?r]) (Suc k) l)
              (blobs[?r := blob_add ?r (k mod w) (k div w) (blobs ! ?r)] ! l)"
      proof (cases "l = ?r")
        case True
        have set: "blob_pixels (px[k := word_of_nat ?r]) (Suc k) l = insert k (blob_pixels px k l)"
          using kl ur True by (intro blob_pixels_same) simp_all
        have sub: "blob_pixels px k l \<subseteq> {..<k}" by (auto simp: blob_pixels_def)
        have "stats_of w (insert k (blob_pixels px k l)) (blob_add ?r (k mod w) (k div w) (blobs ! l))"
          using st [of l] l finite_blob_pixels sub k w h by (intro stats_of_add) simp_all
        then show ?thesis using set True rl lb by simp
      next
        case False
        have set: "blob_pixels (px[k := word_of_nat ?r]) (Suc k) l = blob_pixels px k l"
          using kl ur False by (intro blob_pixels_other) simp_all
        show ?thesis using st [of l] l set False by simp
      qed
    qed
  qed
  then show ?thesis using s' by blast
qed


lemma second_pass_upto_all: "second_pass w h s = second_pass_upto w (w * h) s"
  by (simp add: second_pass_flat second_pass_upto_def)

lemma stats_of_zero: "stats_of w {} blob_zero"
  by (simp add: stats_of_def blob_zero_def)

text \<open>
  Claim C10. In a frame of at most 160 x 120 pixels, after any number \<open>k\<close> of pixels of the
  second pass, the count and the five \<^verbatim>\<open>uint32_t\<close> accumulators of every label \<open>l >= 1\<close> are,
  read as natural numbers, the exact count and sums over the pixels processed so far that
  carry the label \<open>l\<close>: no addition has wrapped. For \<open>k = width * height\<close> this is the table
  that the scan hands to the selection.
\<close>

theorem accumulators_exact:
  assumes ok: "frame_ok fb" and w: "fb_width fb \<le> 160" and h: "fb_height fb \<le> 120"
    and len: "length parent = MAX_LABELS" and k: "k \<le> fb_width fb * fb_height fb"
  shows "\<exists>px1 par1 nl px par blobs.
           label_frame fb parent = Some (px1, par1, nl) \<and>
           second_pass_upto (fb_width fb) k (px1, par1, replicate MAX_LABELS blob_zero) =
             Some (px, par, blobs) \<and>
           (\<forall>l. 1 \<le> l \<and> l < MAX_LABELS \<longrightarrow>
              stats_of (fb_width fb) (blob_pixels px k l) (blobs ! l)) \<and>
           (k = fb_width fb * fb_height fb \<longrightarrow>
              scan_frame fb parent = Some (px, par, nl, blobs))"
proof -
  let ?w = "fb_width fb" and ?h = "fb_height fb"
  from label_frame_safe [OF ok len] obtain px1 par1 nl where
    s1: "label_frame fb parent = Some (px1, par1, nl)"
        "pass1_inv (?w * ?h) (?w * ?h) (px1, par1, nl)" by auto
  let ?s0 = "(px1, par1, replicate MAX_LABELS blob_zero)"
  have i0: "pass2_inv ?w ?h nl 0 ?s0"
    using s1(2) unfolding pass1_inv_def pass2_inv_def by (auto simp: blob_ok_zero)
  have e0: "pass2_exact ?w 0 ?s0"
    by (simp add: pass2_exact_def blob_pixels_def stats_of_zero)
  let ?I = "\<lambda>j s. pass2_inv ?w ?h nl j s \<and> pass2_exact ?w j s"
  have "\<exists>s'. for_each [0..<k] (\<lambda>i. measure_px ?w (i div ?w) (i mod ?w)) ?s0 = Some s' \<and> ?I k s'"
  proof (rule for_each_upt_inv [where I = ?I])
    show "?I 0 ?s0" using i0 e0 by simp
    show "0 \<le> k" by simp
  next
    fix j s assume j: "j < k" and I: "?I j s"
    have "j < ?w * ?h" using j k by simp
    with I show "\<exists>s'. measure_px ?w (j div ?w) (j mod ?w) s = Some s' \<and> ?I (Suc j) s'"
      using w h by (intro measure_px_exact_step) simp_all
  qed
  then obtain px par blobs where
    s2: "second_pass_upto ?w k ?s0 = Some (px, par, blobs)"
    and ex: "pass2_exact ?w k (px, par, blobs)"
    unfolding second_pass_upto_def by auto
  have "scan_frame fb parent = Some (px, par, nl, blobs)" if "k = ?w * ?h"
    using s1(1) s2 that by (simp add: scan_frame_def second_pass_upto_all)
  then show ?thesis using s1(1) s2 ex unfolding pass2_exact_def by auto
qed

text \<open>
  The hypotheses of C10 hold for a white 2x2 frame and \<open>k = 4\<close>.
\<close>

theorem accumulators_exact_witness:
  "frame_ok \<lparr>fb_buf = [0xFFFF, 0xFFFF, 0xFFFF, 0xFFFF], fb_width = 2, fb_height = 2,
             fb_format = PIXFORMAT_RGB565\<rparr> \<and>
   (2::nat) \<le> 160 \<and> (2::nat) \<le> 120 \<and> length [0..<MAX_LABELS] = MAX_LABELS \<and>
   (4::nat) \<le> 2 * 2 \<and>
   (\<exists>px1 par1 nl px par blobs.
      label_frame \<lparr>fb_buf = [0xFFFF, 0xFFFF, 0xFFFF, 0xFFFF], fb_width = 2, fb_height = 2,
             fb_format = PIXFORMAT_RGB565\<rparr> [0..<MAX_LABELS] = Some (px1, par1, nl) \<and>
      second_pass_upto 2 4 (px1, par1, replicate MAX_LABELS blob_zero) = Some (px, par, blobs) \<and>
      (\<forall>l. 1 \<le> l \<and> l < MAX_LABELS \<longrightarrow> stats_of 2 (blob_pixels px 4 l) (blobs ! l)) \<and>
      scan_frame \<lparr>fb_buf = [0xFFFF, 0xFFFF, 0xFFFF, 0xFFFF], fb_width = 2, fb_height = 2,
             fb_format = PIXFORMAT_RGB565\<rparr> [0..<MAX_LABELS] = Some (px, par, nl, blobs))"
proof -
  let ?F = "\<lparr>fb_buf = [0xFFFF, 0xFFFF, 0xFFFF, 0xFFFF], fb_width = 2, fb_height = 2,
             fb_format = PIXFORMAT_RGB565\<rparr>"
  have h1: "frame_ok ?F" by (simp add: frame_ok_def)
  have h2: "fb_width ?F \<le> 160" "fb_height ?F \<le> 120" by simp_all
  have h3: "length [0..<MAX_LABELS] = MAX_LABELS" by simp
  have h4: "4 \<le> fb_width ?F * fb_height ?F" by simp
  from accumulators_exact [OF h1 h2 h3 h4] h1 h3 show ?thesis by simp
qed

section \<open>Label capacity\<close>

lemma label_px_local:
  assumes k: "k < length px" and lq: "length Q = length px" and w: "0 < w"
    and qk: "Q ! k = px ! k"
    and qt: "w \<le> k \<longrightarrow> Q ! (k - w) = px ! (k - w)"
    and ql: "0 < k mod w \<longrightarrow> Q ! (k - 1) = px ! (k - 1)"
    and run: "label_px w (k div w) (k mod w) (px, par, nl) = Some (px1, par1, nl1)"
  shows "px1 = px[k := px1 ! k] \<and>
         label_px w (k div w) (k mod w) (Q, par, nl) = Some (Q[k := px1 ! k], par1, nl1)"
proof -
  define top where "top = (if w \<le> k then px ! (k - w) else 0)"
  define left where "left = (if 0 < k mod w then px ! (k - 1) else 0)"
  have tq: "(if w \<le> k then Q ! (k - w) else 0) = top" using qt by (simp add: top_def)
  have lfq: "(if 0 < k mod w then Q ! (k - 1) else 0) = left" using ql by (simp add: left_def)
  have kq: "k < length Q" using k lq by simp
  note fp = label_px_flat [OF k w, of par nl, unfolded Let_def, folded top_def left_def]
  note fq = label_px_flat [OF kq w, of par nl, unfolded Let_def, unfolded tq lfq qk]
  show ?thesis
  proof (cases "px ! k = 0xFFFF")
    case False
    then have "px1 = px" "par1 = par" "nl1 = nl" using fp run by simp_all
    then show ?thesis using False fq qk k kq by (simp add: list_update_same_conv [THEN iffD2])
  next
    case True
    show ?thesis
    proof (cases "dsu_unite par (unat top) (unat left)")
      case None
      then show ?thesis using fp fq run True k by (auto split: if_splits)
    next
      case (Some par')
      then show ?thesis using fp fq run True k by (auto split: if_splits)
    qed
  qed
qed

lemma label_px_drop:
  assumes inv: "pass1_inv n k (px, par, nl)" and k: "k < n" and w: "0 < w"
    and fg: "px ! k = 0xFFFF"
    and run: "label_px w (k div w) (k mod w) (px, par, nl) = Some (px1, par1, nl1)"
    and z: "px1 ! k = 0"
  shows "par1 = par \<and> nl1 = nl"
proof -
  have len: "length px = n" and nl: "1 \<le> nl" using inv by (simp_all add: pass1_inv_def)
  have kl: "k < length px" using k len by simp
  define top where "top = (if w \<le> k then px ! (k - w) else 0)"
  define left where "left = (if 0 < k mod w then px ! (k - 1) else 0)"
  note fp = label_px_flat [OF kl w, of par nl, unfolded Let_def, folded top_def left_def]
  have fresh: "(word_of_nat nl :: 16 word) \<noteq> 0" if "nl < MAX_LABELS"
  proof
    assume "(word_of_nat nl :: 16 word) = 0"
    then have "unat (word_of_nat nl :: 16 word) = 0" by simp
    then show False using unat_label [OF that] nl by simp
  qed
  have m: "min top left \<noteq> 0" if "top \<noteq> 0" "left \<noteq> 0" using that by (simp add: min_def)
  show ?thesis
  proof (cases "dsu_unite par (unat top) (unat left)")
    case None
    then show ?thesis using fp run fg z kl fresh by (auto split: if_splits)
  next
    case (Some par')
    then show ?thesis using fp run fg z kl fresh m by (auto split: if_splits)
  qed
qed


lemma first_pass_prefix:
  assumes inv: "pass1_inv n k (P, par, nl)" and k: "k \<le> n" and w: "0 < w"
    and run: "for_each [k..<n] (\<lambda>j. label_px w (j div w) (j mod w)) (P, par, nl) = Some (T, parT, nlT)"
  shows "\<forall>i<k. T ! i = P ! i"
proof -
  let ?I = "\<lambda>j s. k \<le> j \<and> pass1_inv n j s \<and> (\<forall>i<k. fst s ! i = P ! i)"
  have "\<exists>s'. for_each [k..<n] (\<lambda>j. label_px w (j div w) (j mod w)) (P, par, nl) = Some s' \<and> ?I n s'"
  proof (rule for_each_upt_inv [where I = ?I])
    show "?I k (P, par, nl)" using inv by simp
    show "k \<le> n" by (rule k)
  next
    fix j s assume j: "j < n" and I: "?I j s"
    obtain px pa l where s: "s = (px, pa, l)" by (cases s)
    from label_px_step [of n j s w] I j w obtain s1 where
      s1: "label_px w (j div w) (j mod w) s = Some s1" "pass1_inv n (Suc j) s1" by blast
    obtain px1 pa1 l1 where s1': "s1 = (px1, pa1, l1)" by (cases s1)
    have len: "length px = n" using I s by (simp add: pass1_inv_def)
    have "px1 = px[j := px1 ! j]"
      using label_px_local [of j px px w pa l px1 pa1 l1] s1(1) s s1' j len w by simp
    then have "\<forall>i<k. px1 ! i = px ! i" using I by (metis nth_list_update_neq not_less)
    then show "\<exists>s'. label_px w (j div w) (j mod w) s = Some s' \<and> ?I (Suc j) s'"
      using s1 s1' I s by auto
  qed
  then show ?thesis using run by auto
qed


lemma first_pass_sim:
  assumes w: "0 < w"
    and inv: "pass1_inv n k (P, par, nl)" and k: "k \<le> n"
    and run: "for_each [k..<n] (\<lambda>j. label_px w (j div w) (j mod w)) (P, par, nl) = Some (T, parT, nlT)"
    and lq: "length P' = n"
    and lo: "\<forall>i<k. P' ! i = P ! i"
    and hi: "\<forall>i. k \<le> i \<and> i < n \<longrightarrow> P' ! i = (if T ! i = 0 then 0 else P ! i)"
  shows "for_each [k..<n] (\<lambda>j. label_px w (j div w) (j mod w)) (P', par, nl) = Some (T, parT, nlT)"
  using inv k run lq lo hi
proof (induction "n - k" arbitrary: k P P' par nl)
  case 0
  then have kn: "k = n" by simp
  have "length P = n" using "0.prems"(1) by (simp add: pass1_inv_def)
  then have "P' = P" using "0.prems"(4,5) kn by (intro nth_equalityI) simp_all
  then show ?case using "0.prems"(3) kn by simp
next
  case (Suc d)
  let ?body = "\<lambda>j. label_px w (j div w) (j mod w)"
  have kn: "k < n" using Suc.hyps(2) by simp
  have len: "length P = n" using Suc.prems(1) by (simp add: pass1_inv_def)
  from label_px_step [OF Suc.prems(1) kn w] obtain s1 where
    s1: "?body k (P, par, nl) = Some s1" "pass1_inv n (Suc k) s1" by blast
  obtain P1 par1 nl1 where s1': "s1 = (P1, par1, nl1)" by (cases s1)
  have rest: "for_each [Suc k..<n] ?body (P1, par1, nl1) = Some (T, parT, nlT)"
    using Suc.prems(3) kn s1(1) s1' by (simp add: upt_conv_Cons)
  have inv1: "pass1_inv n (Suc k) (P1, par1, nl1)" using s1(2) s1' by simp
  have P1: "P1 = P[k := P1 ! k]"
    using label_px_local [of k P P w par nl P1 par1 nl1] s1(1) s1' kn len w by simp
  have Tk: "T ! k = P1 ! k"
    using first_pass_prefix [OF inv1 _ w rest] kn by simp
  have d: "d = n - Suc k" using Suc.hyps(2) by simp
  have kl: "k < length P" "k < length P'" using kn len Suc.prems(4) by simp_all
  show ?case
  proof (cases "T ! k = 0")
    case False
    then have qk: "P' ! k = P ! k" using Suc.prems(6) kn by simp
    have qt: "w \<le> k \<longrightarrow> P' ! (k - w) = P ! (k - w)" using Suc.prems(5) w by simp
    have kpos: "0 < k" if "0 < k mod w" using that by (cases k) auto
    have ql: "0 < k mod w \<longrightarrow> P' ! (k - 1) = P ! (k - 1)" using Suc.prems(5) kpos by simp
    have lq': "length P' = length P" using len Suc.prems(4) by simp
    have step': "?body k (P', par, nl) = Some (P'[k := P1 ! k], par1, nl1)"
      using label_px_local [OF kl(1) lq' w qk qt ql] s1(1) s1' by simp
    have lo': "\<forall>i<Suc k. P'[k := P1 ! k] ! i = P1 ! i"
    proof (intro allI impI)
      fix i assume "i < Suc k"
      then consider "i = k" | "i < k" by linarith
      then show "P'[k := P1 ! k] ! i = P1 ! i"
      proof cases
        case 1
        then show ?thesis using kl by simp
      next
        case 2
        then have "P1 ! i = P ! i" using P1 by (metis nth_list_update_neq less_irrefl)
        then show ?thesis using 2 Suc.prems(5) by simp
      qed
    qed
    have hi': "\<forall>i. Suc k \<le> i \<and> i < n \<longrightarrow>
                 P'[k := P1 ! k] ! i = (if T ! i = 0 then 0 else P1 ! i)"
    proof (intro allI impI)
      fix i assume i: "Suc k \<le> i \<and> i < n"
      then have ne: "i \<noteq> k" by simp
      then have "P1 ! i = P ! i" using P1 by (metis nth_list_update_neq)
      then show "P'[k := P1 ! k] ! i = (if T ! i = 0 then 0 else P1 ! i)"
        using ne i Suc.prems(6) by simp
    qed
    have "for_each [Suc k..<n] ?body (P'[k := P1 ! k], par1, nl1) = Some (T, parT, nlT)"
      using Suc.hyps(1) [OF d inv1 _ rest _ lo' hi'] kn Suc.prems(4) by simp
    then show ?thesis using kn step' by (simp add: upt_conv_Cons)
  next
    case True
    then have qk: "P' ! k = 0" using Suc.prems(6) kn by simp
    have step': "?body k (P', par, nl) = Some (P', par, nl)"
      using label_px_flat [OF kl(2) w, of par nl] qk by simp
    have z: "P1 ! k = 0" using Tk True by simp
    have same: "par1 = par \<and> nl1 = nl"
    proof (cases "P ! k = 0xFFFF")
      case fg: True
      show ?thesis
        using label_px_drop [OF Suc.prems(1) kn w fg] s1(1) s1' z by simp
    next
      case False
      then show ?thesis using label_px_flat [OF kl(1) w, of par nl] s1(1) s1' by simp
    qed
    have lo': "\<forall>i<Suc k. P' ! i = P1 ! i"
    proof (intro allI impI)
      fix i assume "i < Suc k"
      then consider "i = k" | "i < k" by linarith
      then show "P' ! i = P1 ! i"
      proof cases
        case 1
        then show ?thesis using qk z by simp
      next
        case 2
        then have "P1 ! i = P ! i" using P1 by (metis nth_list_update_neq less_irrefl)
        then show ?thesis using 2 Suc.prems(5) by simp
      qed
    qed
    have hi': "\<forall>i. Suc k \<le> i \<and> i < n \<longrightarrow> P' ! i = (if T ! i = 0 then 0 else P1 ! i)"
    proof (intro allI impI)
      fix i assume i: "Suc k \<le> i \<and> i < n"
      then have ne: "i \<noteq> k" by simp
      then have "P1 ! i = P ! i" using P1 by (metis nth_list_update_neq)
      then show "P' ! i = (if T ! i = 0 then 0 else P1 ! i)"
        using i Suc.prems(6) by simp
    qed
    have inv1': "pass1_inv n (Suc k) (P1, par, nl)" using inv1 same by simp
    have rest': "for_each [Suc k..<n] ?body (P1, par, nl) = Some (T, parT, nlT)"
      using rest same by simp
    have "for_each [Suc k..<n] ?body (P', par, nl) = Some (T, parT, nlT)"
      using Suc.hyps(1) [OF d inv1' _ rest' Suc.prems(4) lo' hi'] kn by simp
    then show ?thesis using kn step' by (simp add: upt_conv_Cons)
  qed
qed


lemma label_frame_clear:
  assumes ok: "frame_ok fb" and len: "length parent = MAX_LABELS"
    and run: "label_frame fb parent = Some (px1, par1, nl)"
  shows "label_frame (fb\<lparr>fb_buf := clear_unlabeled (fb_buf fb) px1\<rparr>) parent = Some (px1, par1, nl)"
proof -
  let ?w = "fb_width fb" and ?h = "fb_height fb"
  let ?n = "?w * ?h"
  let ?B = "map binarize_px (fb_buf fb)"
  let ?buf' = "clear_unlabeled (fb_buf fb) px1"
  let ?B' = "map binarize_px ?buf'"
  let ?body = "\<lambda>j. label_px ?w (j div ?w) (j mod ?w)"
  have l: "length (fb_buf fb) = ?n" using ok by (simp add: frame_ok_def)
  have b: "binarize ?w ?h (fb_buf fb) = Some ?B" using l by (rule binarize_map)
  have i: "dsu_init parent = Some [0..<MAX_LABELS]" using len by (rule dsu_init_spec)
  have inv0: "pass1_inv ?n 0 (?B, [0..<MAX_LABELS], 1)"
    using l binarize_px_binary
    by (auto simp: pass1_inv_def forest_init pos_roots_def root_of_init MAX_LABELS_def)
  have fp: "for_each [0..<?n] ?body (?B, [0..<MAX_LABELS], 1) = Some (px1, par1, nl)"
    using run b i by (simp add: label_frame_def first_pass_flat)
  from first_pass_inv [OF inv0] fp have "pass1_inv ?n ?n (px1, par1, nl)"
    by (simp add: first_pass_flat)
  then have l1: "length px1 = ?n" by (simp add: pass1_inv_def)
  have lb': "length ?buf' = ?n" using l l1 by (simp add: clear_unlabeled_def)
  have b': "binarize ?w ?h ?buf' = Some ?B'" using lb' by (rule binarize_map)
  have nth: "?B' ! j = (if px1 ! j = 0 then 0 else ?B ! j)" if "j < ?n" for j
    using that l l1 by (simp add: clear_unlabeled_def binarize_px_black)
  show ?thesis
  proof (cases "?n = 0")
    case True
    have "length (fb_buf fb) = 0" "length ?buf' = 0" using l lb' True by simp_all
    then have "?buf' = fb_buf fb" by simp
    then show ?thesis using run by (simp add: label_frame_def)
  next
    case False
    then have w: "0 < ?w" by simp
    have "for_each [0..<?n] ?body (?B', [0..<MAX_LABELS], 1) = Some (px1, par1, nl)"
      using w inv0 _ fp
    proof (rule first_pass_sim)
      show "length ?B' = ?n" using lb' by simp
      show "\<forall>j<0. ?B' ! j = ?B ! j" by simp
      show "\<forall>j. 0 \<le> j \<and> j < ?n \<longrightarrow> ?B' ! j = (if px1 ! j = 0 then 0 else ?B ! j)"
        using nth by simp
    qed simp
    then show ?thesis using b' i by (simp add: label_frame_def first_pass_flat)
  qed
qed

lemma first_pass_dotted_row:
  assumes n: "2 * MAX_LABELS \<le> n"
  shows "first_pass n 1 (dotted_row n, [0..<MAX_LABELS], 1) =
           Some (dotted_labels n, [0..<MAX_LABELS], MAX_LABELS)"
proof -
  let ?L = MAX_LABELS
  let ?lab = "\<lambda>i. if even i \<and> i div 2 + 1 < ?L then word_of_nat (i div 2 + 1) else (0 :: 16 word)"
  let ?raw = "\<lambda>i :: nat. if even i then 0xFFFF else (0 :: 16 word)"
  let ?I = "\<lambda>k (s :: label_state). case s of (px, par, nl) \<Rightarrow>
     length px = n \<and> par = [0..<?L] \<and> nl = min (Suc ((k + 1) div 2)) ?L \<and>
     (\<forall>i<n. px ! i = (if i < k then ?lab i else ?raw i))"
  have npos: "0 < n" using n by (simp add: MAX_LABELS_def)
  have "\<exists>s'. for_each [0..<n * 1] (\<lambda>k. label_px n (k div n) (k mod n))
              (dotted_row n, [0..<?L], 1) = Some s' \<and> ?I (n * 1) s'"
  proof (rule for_each_upt_inv [where I = ?I])
    show "?I 0 (dotted_row n, [0..<?L], 1)"
      by (simp add: dotted_row_def MAX_LABELS_def)
    show "0 \<le> n * 1" by simp
  next
    fix k s assume k: "k < n * 1" and I: "?I k s"
    obtain px par nl where s: "s = (px, par, nl)" by (cases s)
    have len: "length px = n" and par: "par = [0..<?L]"
      and nl: "nl = min (Suc ((k + 1) div 2)) ?L"
      and pxs: "\<And>i. i < n \<Longrightarrow> px ! i = (if i < k then ?lab i else ?raw i)"
      using I s by auto
    have kl: "k < length px" using k len by simp
    have kn: "k < n" using k by simp
    have top: "(if n \<le> k then px ! (k - n) else 0) = 0" using kn by simp
    have pk: "px ! k = ?raw k" using pxs [OF kn] by simp
    note flat = label_px_flat [OF kl npos, of par nl, unfolded Let_def top]
    show "\<exists>s'. label_px n (k div n) (k mod n) s = Some s' \<and> ?I (Suc k) s'"
    proof (cases "even k")
      case False
      then have "px ! k = 0" using pk by simp
      then have st: "label_px n (k div n) (k mod n) s = Some (px, par, nl)"
        using flat s by simp
      have "(Suc k + 1) div 2 = (k + 1) div 2" using False by presburger
      then have "?I (Suc k) (px, par, nl)"
        using len par nl pxs False by (auto simp: less_Suc_eq)
      then show ?thesis using st by blast
    next
      case True
      have left: "(if 0 < k mod n then px ! (k - 1) else 0) = 0"
      proof (cases "0 < k mod n")
        case False
        then show ?thesis by simp
      next
        case T: True
        then have kp: "0 < k" by (cases k) auto
        then have "odd (k - 1)" using True by (cases k) auto
        moreover have "k - 1 < n" "k - 1 < k" using kn kp by simp_all
        ultimately show ?thesis using pxs [of "k - 1"] T by simp
      qed
      have fg: "px ! k = 0xFFFF" using pk True by simp
      have half: "(k + 1) div 2 = k div 2" "(Suc k + 1) div 2 = k div 2 + 1"
        using True by presburger+
      show ?thesis
      proof (cases "k div 2 + 1 < ?L")
        case lt: True
        then have nlv: "nl = k div 2 + 1" using nl half by (simp add: min_def)
        have st: "label_px n (k div n) (k mod n) s = Some (px[k := word_of_nat nl], par, nl + 1)"
          using flat s fg left lt nlv by simp
        have "?I (Suc k) (px[k := word_of_nat nl], par, nl + 1)"
          using len par nlv pxs True lt half kn
          by (auto simp: less_Suc_eq nth_list_update min_def)
        then show ?thesis using st by blast
      next
        case ge: False
        then have nlv: "nl = ?L" using nl half by (simp add: min_def)
        have st: "label_px n (k div n) (k mod n) s = Some (px[k := 0], par, nl)"
          using flat s fg left nlv by simp
        have "?I (Suc k) (px[k := 0], par, nl)"
          using len par nlv pxs True ge half kn
          by (auto simp: less_Suc_eq nth_list_update min_def)
        then show ?thesis using st by blast
      qed
    qed
  qed
  then obtain px par nl where
    r: "first_pass n 1 (dotted_row n, [0..<?L], 1) = Some (px, par, nl)"
    and len: "length px = n" and par: "par = [0..<?L]"
    and nl: "nl = min (Suc ((n + 1) div 2)) ?L"
    and pxs: "\<forall>i<n. px ! i = ?lab i"
    unfolding first_pass_flat by auto
  have "px = dotted_labels n"
    using len pxs by (intro nth_equalityI) (simp_all add: dotted_labels_def)
  moreover have "nl = ?L" using nl n by (simp add: min_def) linarith
  ultimately show ?thesis using r par by simp
qed


lemma label_dotted_frame:
  assumes "2 * MAX_LABELS \<le> n" "length parent = MAX_LABELS"
  shows "label_frame (dotted_frame n) parent =
           Some (dotted_labels n, [0..<MAX_LABELS], MAX_LABELS)"
proof -
  have "map binarize_px (dotted_row n) = dotted_row n"
    by (simp add: dotted_row_def binarize_px_white binarize_px_black)
  then have b: "binarize n 1 (dotted_row n) = Some (dotted_row n)"
    using binarize_map [of "dotted_row n" n 1] by (simp add: dotted_row_def)
  show ?thesis
    using assms(2) first_pass_dotted_row [OF assms(1)]
    by (simp add: label_frame_def dotted_frame_def b dsu_init_spec del: One_nat_def)
qed


text \<open>
  Claim C8. On every RGB565 frame, however many regions it has, all array accesses stay
  in bounds and the recursion of \<^verbatim>\<open>dsu_find\<close> ends (the first pass, the scan and the whole call
  return a value); after the first pass every pixel is a label below \<^verbatim>\<open>MAX_LABELS\<close>. The
  pixels that were dropped for lack of labels count as background: the blob table, the
  label counter, the buffer and the result are exactly those of the frame in which the
  unlabeled pixels are black, so the blobs that got labels are measured and selected as
  they are without the dropped regions.
\<close>

theorem capacity_overflow_degrades:
  assumes ok: "frame_ok fb" and fmt: "fb_format fb = PIXFORMAT_RGB565"
    and len: "length parent = MAX_LABELS"
  shows "\<exists>px1 par1 nl sc out.
           label_frame fb parent = Some (px1, par1, nl) \<and>
           length px1 = fb_width fb * fb_height fb \<and> nl \<le> MAX_LABELS \<and>
           (\<forall>i<fb_width fb * fb_height fb. unat (px1 ! i) < MAX_LABELS) \<and>
           scan_frame fb parent = Some sc \<and>
           find_light_source fb result parent = Some out \<and>
           scan_frame (fb\<lparr>fb_buf := clear_unlabeled (fb_buf fb) px1\<rparr>) parent = Some sc \<and>
           find_light_source (fb\<lparr>fb_buf := clear_unlabeled (fb_buf fb) px1\<rparr>) result parent =
             Some out"
proof -
  let ?w = "fb_width fb" and ?h = "fb_height fb"
  from find_light_source_spec [OF ok fmt len, of result] obtain sc out where
    sc: "scan_frame fb parent = Some sc" and out: "find_light_source fb result parent = Some out"
    by blast
  from label_frame_safe [OF ok len] obtain px1 par1 nl where
    lf: "label_frame fb parent = Some (px1, par1, nl)"
    and inv: "pass1_inv (?w * ?h) (?w * ?h) (px1, par1, nl)" by auto
  let ?fb' = "fb\<lparr>fb_buf := clear_unlabeled (fb_buf fb) px1\<rparr>"
  have lf': "label_frame ?fb' parent = Some (px1, par1, nl)"
    using ok len lf by (rule label_frame_clear)
  have sc': "scan_frame ?fb' parent = scan_frame fb parent"
    using lf lf' by (simp add: scan_frame_def)
  have out': "find_light_source ?fb' result parent = find_light_source fb result parent"
  proof -
    have wd: "fb_width ?fb' = fb_width fb" "fb_height ?fb' = fb_height fb"
      "fb_format ?fb' = fb_format fb" by simp_all
    show ?thesis unfolding find_light_source_def sc' wd using fmt by simp
  qed
  have lab: "\<forall>i<?w * ?h. unat (px1 ! i) < MAX_LABELS"
    using inv unfolding pass1_inv_def by (auto intro: less_le_trans)
  have "length px1 = ?w * ?h" "nl \<le> MAX_LABELS" using inv by (simp_all add: pass1_inv_def)
  then show ?thesis using lf lab sc out sc' out' by auto
qed

text \<open>
  The hypotheses of C8 hold for a row of 600 pixels with 300 regions, more than there are
  labels: the region at pixel 508 gets the last label 255, the region at pixel 510 and
  those after it are dropped.
\<close>

theorem capacity_overflow_degrades_witness:
  "frame_ok (dotted_frame 600) \<and> fb_format (dotted_frame 600) = PIXFORMAT_RGB565 \<and>
   length [0..<MAX_LABELS] = MAX_LABELS \<and>
   fb_buf (dotted_frame 600) ! 508 = 0xFFFF \<and> fb_buf (dotted_frame 600) ! 510 = 0xFFFF \<and>
   (\<exists>px1 par1 nl sc out.
      label_frame (dotted_frame 600) [0..<MAX_LABELS] = Some (px1, par1, nl) \<and>
      nl = MAX_LABELS \<and> px1 ! 508 = 255 \<and> px1 ! 510 = 0 \<and>
      length px1 = fb_width (dotted_frame 600) * fb_height (dotted_frame 600) \<and>
      (\<forall>i<fb_width (dotted_frame 600) * fb_height (dotted_frame 600).
          unat (px1 ! i) < MAX_LABELS) \<and>
      scan_frame (dotted_frame 600) [0..<MAX_LABELS] = Some sc \<and>
      find_light_source (dotted_frame 600) \<lparr>lsr_x = 0, lsr_y = 0, lsr_pixel_count = 0\<rparr>
          [0..<MAX_LABELS] = Some out \<and>
      scan_frame (dotted_frame 600\<lparr>fb_buf := clear_unlabeled (fb_buf (dotted_frame 600)) px1\<rparr>)
          [0..<MAX_LABELS] = Some sc \<and>
      find_light_source
          (dotted_frame 600\<lparr>fb_buf := clear_unlabeled (fb_buf (dotted_frame 600)) px1\<rparr>)
          \<lparr>lsr_x = 0, lsr_y = 0, lsr_pixel_count = 0\<rparr> [0..<MAX_LABELS] = Some out)"
proof -
  let ?F = "dotted_frame 600"
  let ?r = "\<lparr>lsr_x = 0, lsr_y = 0, lsr_pixel_count = 0\<rparr>"
  have h1: "frame_ok ?F" by (simp add: frame_ok_def dotted_frame_def dotted_row_def)
  have h2: "fb_format ?F = PIXFORMAT_RGB565" by (simp add: dotted_frame_def)
  have h3: "length [0..<MAX_LABELS] = MAX_LABELS" by simp
  have raw: "fb_buf ?F ! 508 = 0xFFFF" "fb_buf ?F ! 510 = 0xFFFF"
    by (simp_all add: dotted_frame_def dotted_row_def)
  have big: "2 * MAX_LABELS \<le> 600" by (simp add: MAX_LABELS_def)
  note lab = label_dotted_frame [OF big h3]
  from capacity_overflow_degrades [OF h1 h2 h3, of ?r] obtain px1 par1 nl sc out where
    c: "label_frame ?F [0..<MAX_LABELS] = Some (px1, par1, nl)"
       "length px1 = fb_width ?F * fb_height ?F"
       "\<forall>i<fb_width ?F * fb_height ?F. unat (px1 ! i) < MAX_LABELS"
       "scan_frame ?F [0..<MAX_LABELS] = Some sc"
       "find_light_source ?F ?r [0..<MAX_LABELS] = Some out"
       "scan_frame (?F\<lparr>fb_buf := clear_unlabeled (fb_buf ?F) px1\<rparr>) [0..<MAX_LABELS] = Some sc"
       "find_light_source (?F\<lparr>fb_buf := clear_unlabeled (fb_buf ?F) px1\<rparr>) ?r
          [0..<MAX_LABELS] = Some out"
    by blast
  have px1: "px1 = dotted_labels 600" and nl: "nl = MAX_LABELS" using c(1) lab by simp_all
  have p508: "px1 ! 508 = 255" and p510: "px1 ! 510 = 0"
    unfolding px1 by (simp_all add: dotted_labels_def MAX_LABELS_def)
  show ?thesis
    apply (intro conjI)
        apply (rule h1)
       apply (rule h2)
      apply (rule h3)
     apply (rule raw(1))
    apply (rule raw(2))
    apply (rule exI [of _ px1], rule exI [of _ par1], rule exI [of _ nl], rule exI [of _ sc])
    apply (rule exI [of _ out])
    using c nl p508 p510 by (intro conjI) assumption+
qed

end
